theory Spec2Isabelle
  imports Main
begin

section \<open>Values of the JavaScript runtime\<close>

text \<open>
  The engine runs on a single-threaded JavaScript runtime: every network call returns a
  promise, and the adapter combines promises with \<open>Promise.all\<close>, \<open>Promise.race\<close> and
  \<open>Promise.allSettled\<close>. A promise is modelled by the one fact the code can observe of
  it: whether it ever settles, and if so at which instant of the millisecond clock and
  how (fulfilled with a value or rejected with an error).
\<close>

type_synonym account_id = string

type_synonym time = nat

datatype js_error =
  Error string
  | TypeError string
  | UpstreamError string

datatype 'a settled =
  fulfilled 'a
  | rejected js_error

datatype 'a promise =
  Never
  | Settles time "'a settled"

text \<open>
  \<open>p.then(f)\<close> for a synchronous continuation \<open>f\<close>; a \<open>throw\<close> inside \<open>f\<close> (the
  \<open>Inl\<close> branch) rejects the resulting promise. The continuation runs at the instant
  \<open>p\<close> fulfils.
\<close>

fun then_promise :: "'a promise \<Rightarrow> ('a \<Rightarrow> js_error + 'b) \<Rightarrow> 'b promise" where
  "then_promise Never f = Never"
| "then_promise (Settles t (rejected e)) f = Settles t (rejected e)"
| "then_promise (Settles t (fulfilled v)) f =
     (case f v of Inl e \<Rightarrow> Settles t (rejected e) | Inr y \<Rightarrow> Settles t (fulfilled y))"

text \<open>
  A reply of the provider is given with its latency; \<open>issued_at now\<close> turns it into the
  promise of a call issued at the instant \<open>now\<close>.
\<close>

fun issued_at :: "time \<Rightarrow> 'a promise \<Rightarrow> 'a promise" where
  "issued_at now Never = Never"
| "issued_at now (Settles latency r) = Settles (now + latency) r"

text \<open>
  \<open>xs[i]\<close> on a JavaScript array: \<open>undefined\<close> (here \<open>None\<close>) out of range.
\<close>

definition js_index :: "'a list \<Rightarrow> nat \<Rightarrow> 'a option" where
  "js_index xs i = (if i < length xs then Some (xs ! i) else None)"

text \<open>
  \<open>Array.prototype.reduce\<close> with an initial value, for a callback that may throw.
\<close>

fun reduce :: "('b \<Rightarrow> 'a \<Rightarrow> js_error + 'b) \<Rightarrow> 'a list \<Rightarrow> 'b \<Rightarrow> js_error + 'b" where
  "reduce f [] acc = Inr acc"
| "reduce f (x # xs) acc =
     (case f acc x of Inl e \<Rightarrow> Inl e | Inr acc' \<Rightarrow> reduce f xs acc')"

text \<open>
  The result of \<open>Number.parseFloat\<close> is a double: \<open>NaN\<close> (here \<open>None\<close>) or a number of
  a linearly ordered domain. The comparison \<open>a > b\<close> of JavaScript is false as soon as one
  side is \<open>NaN\<close>.
\<close>

definition js_gt :: "('n::linorder) option \<Rightarrow> 'n option \<Rightarrow> bool" where
  "js_gt a b = (case a of None \<Rightarrow> False
                | Some x \<Rightarrow> (case b of None \<Rightarrow> False | Some y \<Rightarrow> y < x))"

section \<open>Provider data\<close>

text \<open>
  The balance entries of \<open>GetBalancesResponse\<close>. The code reads
  \<open>balance_amount.amount\<close>, a decimal string; the currency and the balance type (booked,
  available, ...) are carried along unread.
\<close>

record balance_amount_t =
  amount :: string
  currency :: string

record balance_t =
  balance_amount :: balance_amount_t
  balance_type :: string

record GetBalancesResponse =
  balances :: "balance_t list"

record aspsp_t =
  aspsp_name :: string
  aspsp_country :: string

record access_t =
  valid_until :: string

record GetSessionResponse =
  accounts :: "account_id list"
  aspsp :: aspsp_t
  access :: access_t

text \<open>
  \<open>GetAccountDetailsResponse\<close>: the provider's account details (of type \<open>'d\<close>, spread
  into the record by the code) with the institution, the validity and the balance that
  \<open>getAccounts\<close> adds. The balance is \<open>None\<close> where the code stores \<open>undefined\<close>.
\<close>

record 'd GetAccountDetailsResponse =
  details :: 'd
  institution :: aspsp_t
  account_valid_until :: string
  balance :: "balance_t option"

section \<open>The provider and the runtime as the adapter sees them\<close>

text \<open>
  The environment of one adapter instance. A reply is a promise whose time is the
  latency of the call (the signing of the bearer assertion and the HTTP round trip).
  The replies to the details and balances calls are indexed by the number of account
  work items started before the call and by the account id, so that two calls for the
  same id may be answered differently. \<open>timer_first\<close> says which side of a
  \<open>Promise.race\<close> against a timer wins when both settle in the same millisecond.
\<close>

record ('d, 'n) world =
  session_reply :: "string \<Rightarrow> GetSessionResponse promise"
  details_reply :: "nat \<Rightarrow> account_id \<Rightarrow> 'd promise"
  balances_reply :: "nat \<Rightarrow> account_id \<Rightarrow> GetBalancesResponse promise"
  parseFloat :: "string \<Rightarrow> 'n option"
  timer_first :: bool

section \<open>getAccountBalance\<close>

text \<open>
  The callback of the \<open>reduce\<close> in \<open>getAccountBalance\<close>: reading
  \<open>max.balance_amount\<close> of an \<open>undefined\<close> accumulator throws a \<open>TypeError\<close>.
\<close>

definition highest_step ::
  "(string \<Rightarrow> ('n::linorder) option) \<Rightarrow> balance_t option \<Rightarrow> balance_t \<Rightarrow> js_error + balance_t option"
where
  "highest_step pf mx current =
     (let currentAmount = pf (amount (balance_amount current)) in
      case mx of
        None \<Rightarrow> Inl (TypeError ''Cannot read properties of undefined'')
      | Some m \<Rightarrow>
          (let maxAmount = pf (amount (balance_amount m)) in
           Inr (Some (if js_gt currentAmount maxAmount then current else m))))"

definition highestBalance ::
  "(string \<Rightarrow> ('n::linorder) option) \<Rightarrow> GetBalancesResponse \<Rightarrow> js_error + balance_t option"
where
  "highestBalance pf response =
     reduce (highest_step pf) (balances response) (js_index (balances response) 0)"

text \<open>
  \<open>getAccountBalance(accountId)\<close>, as the call number \<open>k\<close> of the adapter; the time of
  the result is the latency of the call.
\<close>

definition getAccountBalance ::
  "('d, 'n::linorder) world \<Rightarrow> nat \<Rightarrow> account_id \<Rightarrow> balance_t option promise"
where
  "getAccountBalance w k accountId =
     then_promise (balances_reply w k accountId) (highestBalance (parseFloat w))"

section \<open>Promise combinators\<close>

text \<open>
  \<open>new Promise((_, reject) => setTimeout(() => reject(new Error(msg)), ms))\<close>, created
  at the instant \<open>now\<close>.
\<close>

definition timeoutPromise :: "time \<Rightarrow> nat \<Rightarrow> string \<Rightarrow> 'a promise" where
  "timeoutPromise now ms msg = Settles (now + ms) (rejected (Error msg))"

text \<open>
  \<open>Promise.race([work, timer])\<close>: the contender that settles first decides. When both
  settle in the same millisecond the runtime's event order decides, which is the
  parameter \<open>tf\<close> (true: the timer's callback runs first).
\<close>

fun Promise_race :: "bool \<Rightarrow> 'a promise \<Rightarrow> 'a promise \<Rightarrow> 'a promise" where
  "Promise_race tf Never q = q"
| "Promise_race tf (Settles t r) Never = Settles t r"
| "Promise_race tf (Settles t r) (Settles u s) =
     (if t < u \<or> (t = u \<and> \<not> tf) then Settles t r else Settles u s)"

text \<open>
  \<open>Promise.all([p, q])\<close>: fulfilled when both are, rejected as soon as one rejects
  (the one listed first when both reject in the same millisecond).
\<close>

fun Promise_all :: "'a promise \<Rightarrow> 'b promise \<Rightarrow> ('a \<times> 'b) promise" where
  "Promise_all (Settles t (fulfilled a)) (Settles u (fulfilled b)) =
     Settles (max t u) (fulfilled (a, b))"
| "Promise_all (Settles t (rejected e)) (Settles u (rejected f)) =
     (if t \<le> u then Settles t (rejected e) else Settles u (rejected f))"
| "Promise_all (Settles t (rejected e)) q = Settles t (rejected e)"
| "Promise_all p (Settles u (rejected f)) = Settles u (rejected f)"
| "Promise_all p q = Never"

text \<open>
  \<open>Promise.allSettled(ps)\<close>, called at the instant \<open>now\<close>: it never rejects, and
  fulfils with the outcomes in the order of \<open>ps\<close> once the last of them has settled.
\<close>

fun Promise_allSettled :: "time \<Rightarrow> 'a promise list \<Rightarrow> 'a settled list promise" where
  "Promise_allSettled now [] = Settles now (fulfilled [])"
| "Promise_allSettled now (Never # ps) = Never"
| "Promise_allSettled now (Settles t r # ps) =
     (case Promise_allSettled now ps of
        Never \<Rightarrow> Never
      | Settles u (rejected e) \<Rightarrow> Settles u (rejected e)
      | Settles u (fulfilled rs) \<Rightarrow> Settles (max t u) (fulfilled (r # rs)))"

section \<open>getAccounts\<close>

definition ACCOUNT_TIMEOUT :: nat where
  "ACCOUNT_TIMEOUT = 8000"

definition MAX_CONCURRENT :: nat where
  "MAX_CONCURRENT = 2"

definition getAccountDetails :: "('d, 'n) world \<Rightarrow> nat \<Rightarrow> account_id \<Rightarrow> 'd promise" where
  "getAccountDetails w k accountId = details_reply w k accountId"

text \<open>
  The inner \<open>accountPromise\<close> of \<open>processAccountBatch\<close>: the details call and the
  balance call, both issued at \<open>now\<close>, joined by \<open>Promise.all\<close>, and the record built
  from the pair.
\<close>

definition accountPromise ::
  "('d, 'n::linorder) world \<Rightarrow> GetSessionResponse \<Rightarrow> time \<Rightarrow> nat \<Rightarrow> account_id
     \<Rightarrow> 'd GetAccountDetailsResponse promise"
where
  "accountPromise w session now k accountId =
     then_promise
       (Promise_all (issued_at now (getAccountDetails w k accountId))
                    (issued_at now (getAccountBalance w k accountId)))
       (\<lambda>(details_v, balance_v).
          Inr \<lparr>details = details_v, institution = aspsp session,
               account_valid_until = valid_until (access session), balance = balance_v\<rparr>)"

text \<open>
  One element of the \<open>accountIds.map(...)\<close> of \<open>processAccountBatch\<close>: the work raced
  against the per-account timer.
\<close>

definition account_item ::
  "('d, 'n::linorder) world \<Rightarrow> GetSessionResponse \<Rightarrow> time \<Rightarrow> nat \<Rightarrow> account_id
     \<Rightarrow> 'd GetAccountDetailsResponse promise"
where
  "account_item w session now k accountId =
     Promise_race (timer_first w)
       (accountPromise w session now k accountId)
       (timeoutPromise now ACCOUNT_TIMEOUT (''Timeout processing account '' @ accountId))"

text \<open>
  The promises of one batch, dispatched together at \<open>now\<close>; \<open>started\<close> is the number
  of work items started before the batch (it selects the provider's replies).
\<close>

definition batch_items ::
  "('d, 'n::linorder) world \<Rightarrow> GetSessionResponse \<Rightarrow> time \<Rightarrow> nat \<Rightarrow> account_id list
     \<Rightarrow> 'd GetAccountDetailsResponse promise list"
where
  "batch_items w session now started accountIds =
     map (\<lambda>(index, accountId). account_item w session now (started + index) accountId)
         (enumerate 0 accountIds)"

definition processAccountBatch ::
  "('d, 'n::linorder) world \<Rightarrow> GetSessionResponse \<Rightarrow> time \<Rightarrow> nat \<Rightarrow> account_id list
     \<Rightarrow> 'd GetAccountDetailsResponse settled list promise"
where
  "processAccountBatch w session now started accountIds =
     Promise_allSettled now (batch_items w session now started accountIds)"

text \<open>
  \<open>xs.slice(b, e)\<close> for \<open>0 \<le> b \<le> e\<close>: both ends are clamped to the length.
\<close>

definition slice :: "'a list \<Rightarrow> nat \<Rightarrow> nat \<Rightarrow> 'a list" where
  "slice xs b e = take (e - b) (drop b xs)"

text \<open>
  The loop \<open>for (let i = 0; i < session.accounts.length; i += MAX_CONCURRENT)\<close>
  that fills \<open>accountBatches\<close>.
\<close>

function accountBatches_loop ::
  "account_id list \<Rightarrow> nat \<Rightarrow> account_id list list \<Rightarrow> account_id list list"
where
  "accountBatches_loop accs i accountBatches =
     (if i < length accs
      then accountBatches_loop accs (i + MAX_CONCURRENT)
             (accountBatches @ [slice accs i (i + MAX_CONCURRENT)])
      else accountBatches)"
  by pat_completeness auto
termination
  by (relation "measure (\<lambda>(accs, i, accountBatches). length accs - i)")
     (auto simp: MAX_CONCURRENT_def)

declare accountBatches_loop.simps [simp del]

text \<open>
  What the second loop of \<open>getAccounts\<close> has done so far: \<open>allResults\<close> as in the
  code, and for every batch processed the record of its run (when it was dispatched,
  the promise of each of its items, when \<open>await processAccountBatch(batch)\<close> resumed).
\<close>

record 'a batch_run =
  dispatched_at :: time
  batch_ids :: "account_id list"
  item_promises :: "'a promise list"
  settled_at :: time

record 'a loop_state =
  allResults :: "'a settled list"
  runs :: "'a batch_run list"

text \<open>
  \<open>for (const batch of accountBatches) { const batchResults = await
  processAccountBatch(batch); allResults.push(...batchResults) }\<close>, entered at
  \<open>now\<close>. The number of work items started before a batch is the length of
  \<open>allResults\<close>.
\<close>

fun process_batches ::
  "('d, 'n::linorder) world \<Rightarrow> GetSessionResponse \<Rightarrow> time \<Rightarrow> account_id list list
     \<Rightarrow> 'd GetAccountDetailsResponse loop_state
     \<Rightarrow> 'd GetAccountDetailsResponse loop_state promise"
where
  "process_batches w session now [] st = Settles now (fulfilled st)"
| "process_batches w session now (batch # rest) st =
     (case processAccountBatch w session now (length (allResults st)) batch of
        Never \<Rightarrow> Never
      | Settles t (rejected e) \<Rightarrow> Settles t (rejected e)
      | Settles t (fulfilled batchResults) \<Rightarrow>
          process_batches w session t rest
            \<lparr>allResults = allResults st @ batchResults,
             runs = runs st @
               [\<lparr>dispatched_at = now, batch_ids = batch,
                 item_promises = batch_items w session now (length (allResults st)) batch,
                 settled_at = t\<rparr>]\<rparr>)"

text \<open>
  \<open>allResults.forEach((result, index) => ...)\<close>: a fulfilled result is pushed to
  \<open>successfulAccounts\<close>, a rejected one pushes \<open>session.accounts[index]\<close> to
  \<open>failedAccounts\<close>.
\<close>

fun separate ::
  "account_id list \<Rightarrow> nat \<Rightarrow> 'a settled list \<Rightarrow> 'a list \<times> account_id option list
     \<Rightarrow> 'a list \<times> account_id option list"
where
  "separate accs index [] (successfulAccounts, failedAccounts) =
     (successfulAccounts, failedAccounts)"
| "separate accs index (fulfilled v # results) (successfulAccounts, failedAccounts) =
     separate accs (Suc index) results (successfulAccounts @ [v], failedAccounts)"
| "separate accs index (rejected e # results) (successfulAccounts, failedAccounts) =
     separate accs (Suc index) results
       (successfulAccounts, failedAccounts @ [js_index accs index])"

text \<open>
  A call of \<open>getAccounts\<close>: the promise it returns, the account ids it reports as
  failed on the console (\<open>failedAccounts\<close>), and the settled results and batch runs
  it went through.
\<close>

record 'a getAccounts_call =
  returned :: "'a list promise"
  reported_failed :: "account_id option list"
  settled_results :: "'a settled list"
  batch_runs :: "'a batch_run list"

definition getAccounts ::
  "('d, 'n::linorder) world \<Rightarrow> time \<Rightarrow> string
     \<Rightarrow> 'd GetAccountDetailsResponse getAccounts_call"
where
  "getAccounts w now session_id =
     (case issued_at now (session_reply w session_id) of
        Never \<Rightarrow>
          \<lparr>returned = Never, reported_failed = [], settled_results = [], batch_runs = []\<rparr>
      | Settles t (rejected e) \<Rightarrow>
          \<lparr>returned = Settles t (rejected e), reported_failed = [],
           settled_results = [], batch_runs = []\<rparr>
      | Settles t (fulfilled session) \<Rightarrow>
          (let accountBatches = accountBatches_loop (accounts session) 0 [] in
           case process_batches w session t accountBatches \<lparr>allResults = [], runs = []\<rparr> of
             Never \<Rightarrow>
               \<lparr>returned = Never, reported_failed = [], settled_results = [],
                batch_runs = []\<rparr>
           | Settles u (rejected e) \<Rightarrow>
               \<lparr>returned = Settles u (rejected e), reported_failed = [],
                settled_results = [], batch_runs = []\<rparr>
           | Settles u (fulfilled st) \<Rightarrow>
               (case separate (accounts session) 0 (allResults st) ([], []) of
                  (successfulAccounts, failedAccounts) \<Rightarrow>
                    \<lparr>returned =
                       (if length successfulAccounts = 0
                        then Settles u (rejected (Error
                               (''All accounts failed to process for session '' @ session_id)))
                        else Settles u (fulfilled successfulAccounts)),
                     reported_failed = failedAccounts,
                     settled_results = allResults st,
                     batch_runs = runs st\<rparr>)))"

section \<open>The GET /accounts handler\<close>

text \<open>
  The body of a response: \<open>{data}\<close> or the \<open>{error: {code, message}}\<close> of
  \<open>ErrorSchema\<close>. \<open>createErrorResponse\<close> (of \<open>@engine/utils/error\<close>) is a parameter
  of the handler: any function from the caught error to such an error body.
\<close>

record error_t =
  error_code :: string
  error_message :: string

datatype 'a json_body =
  DataBody 'a
  | ErrorBody error_t

record 'a http_response =
  status :: nat
  body :: "'a json_body"
  sent_at :: time

definition TOTAL_TIMEOUT :: nat where
  "TOTAL_TIMEOUT = 28000"

text \<open>
  The handler of \<open>GET /accounts\<close> from its \<open>try\<close> on, entered at \<open>startTime\<close>.
  \<open>api_getAccounts\<close> is the call \<open>api.getAccounts({id, accessToken, institutionId})\<close>
  of the provider facade: at the instant of the call it throws (\<open>Inl\<close>) or returns a
  promise. The result is the response and the instant it is sent, \<open>None\<close> if the handler
  never responds.
\<close>

definition accounts_handler ::
  "(js_error \<Rightarrow> error_t) \<Rightarrow> bool \<Rightarrow> time \<Rightarrow> (time \<Rightarrow> js_error + 'a promise)
     \<Rightarrow> 'a http_response option"
where
  "accounts_handler createErrorResponse tf startTime api_getAccounts =
     (let timeoutP = timeoutPromise startTime TOTAL_TIMEOUT ''Request timeout'' in
      case api_getAccounts startTime of
        Inl error \<Rightarrow>
          Some \<lparr>status = 400, body = ErrorBody (createErrorResponse error),
                sent_at = startTime\<rparr>
      | Inr accountsPromise \<Rightarrow>
          (case Promise_race tf accountsPromise timeoutP of
             Never \<Rightarrow> None
           | Settles t (fulfilled data) \<Rightarrow>
               Some \<lparr>status = 200, body = DataBody data, sent_at = t\<rparr>
           | Settles t (rejected error) \<Rightarrow>
               Some \<lparr>status = 400, body = ErrorBody (createErrorResponse error),
                     sent_at = t\<rparr>))"

section \<open>getTransactions\<close>

text \<open>
  A \<open>Date\<close> in local time: the number of days of its calendar date since 1970-01-01 and
  the milliseconds into that day.
\<close>

record js_date =
  local_day :: int
  ms_of_day :: nat

text \<open>
  \<open>subDays(date, n)\<close> of date-fns sets the calendar date back by \<open>n\<close> days and
  keeps the time of day.
\<close>

definition subDays :: "js_date \<Rightarrow> nat \<Rightarrow> js_date" where
  "subDays date n = date\<lparr>local_day := local_day date - int n\<rparr>"

text \<open>
  Year, month and day of a day number in the proleptic Gregorian calendar (the
  calendar of \<open>Date\<close>).
\<close>

definition civil_from_days :: "int \<Rightarrow> int \<times> int \<times> int" where
  "civil_from_days z0 =
     (let z = z0 + 719468;
          era = z div 146097;
          doe = z - era * 146097;
          yoe = (doe - doe div 1460 + doe div 36524 - doe div 146096) div 365;
          y = yoe + era * 400;
          doy = doe - (365 * yoe + yoe div 4 - yoe div 100);
          mp = (5 * doy + 2) div 153;
          d = doy - (153 * mp + 2) div 5 + 1;
          m = (if mp < 10 then mp + 3 else mp - 9)
      in (if m \<le> 2 then y + 1 else y, m, d))"

text \<open>
  The decimal digits of a natural number, as \<open>Number.prototype.toString\<close> prints it.
\<close>

definition digit_char :: "nat \<Rightarrow> char" where
  "digit_char d = ''0123456789'' ! d"

function show_nat :: "nat \<Rightarrow> string" where
  "show_nat n = (if n < 10 then [digit_char n] else show_nat (n div 10) @ [digit_char (n mod 10)])"
  by pat_completeness auto
termination
  by (relation "measure (\<lambda>n. n)") auto

declare show_nat.simps [simp del]

text \<open>
  \<open>addLeadingZeros(number, targetLength)\<close> of date-fns: the sign, then the digits of
  the absolute value padded with zeros on the left.
\<close>

definition addLeadingZeros :: "int \<Rightarrow> nat \<Rightarrow> string" where
  "addLeadingZeros number targetLength =
     (let sign = (if number < 0 then ''-'' else []);
          digits = show_nat (nat \<bar>number\<bar>);
          output = replicate (targetLength - length digits) (CHR ''0'') @ digits
      in sign @ output)"

text \<open>
  \<open>formatISO(date, {representation: "date"})\<close>: \<open>yyyy-MM-dd\<close>.
\<close>

definition formatISO_date :: "js_date \<Rightarrow> string" where
  "formatISO_date date =
     (case civil_from_days (local_day date) of
        (year, month, day) \<Rightarrow>
          addLeadingZeros year 4 @ ''-'' @ addLeadingZeros month 2 @ ''-''
            @ addLeadingZeros day 2)"

text \<open>
  The request that \<open>#get(path, params)\<close> sends: the path and the query parameters in
  the order of the object literal.
\<close>

record request =
  path :: string
  params :: "(string \<times> string) list"

text \<open>
  A JavaScript value used as a condition: \<open>latest\<close> is an optional boolean, and
  \<open>undefined\<close> (here \<open>None\<close>) is falsy.
\<close>

fun truthy :: "bool option \<Rightarrow> bool" where
  "truthy None = False"
| "truthy (Some b) = b"

definition getTransactions_request :: "js_date \<Rightarrow> account_id \<Rightarrow> bool option \<Rightarrow> request" where
  "getTransactions_request today accountId latest =
     \<lparr>path = ''/accounts/'' @ accountId @ ''/transactions'',
      params =
        [(''strategy'', if truthy latest then ''default'' else ''longest''),
         (''transaction_status'', ''BOOK'')]
        @ (if truthy latest then [(''date_from'', formatISO_date (subDays today 5))] else [])\<rparr>"

text \<open>
  \<open>getTransactions({accountId, latest})\<close>, called when \<open>new Date()\<close> is \<open>today\<close>;
  \<open>provider_get\<close> is the provider's answer to a request (the \<open>#get\<close> of the class).
\<close>

definition getTransactions ::
  "(request \<Rightarrow> 'r promise) \<Rightarrow> js_date \<Rightarrow> account_id \<Rightarrow> bool option \<Rightarrow> 'r promise"
where
  "getTransactions provider_get today accountId latest =
     provider_get (getTransactions_request today accountId latest)"

section \<open>The signed assertion\<close>

text \<open>
  The objects that \<open>#encodeData\<close> serialises are flat: their values are strings and
  non-negative integers. Strings are sequences of bytes (the UTF-8 bytes that
  \<open>Buffer.from\<close> produces).
\<close>

datatype json_value =
  JString string
  | JNumber nat

type_synonym json_object = "(string \<times> json_value) list"

definition hex_char :: "nat \<Rightarrow> char" where
  "hex_char d = ''0123456789abcdef'' ! d"

text \<open>
  \<open>JSON.stringify\<close> of a string: the quotation mark, the backslash and the control
  characters are escaped, every other byte stands for itself.
\<close>

definition quote_char :: "char \<Rightarrow> string" where
  "quote_char c =
     (let n = (of_char c :: nat) in
      if n = 8 then [CHR 0x5C, CHR ''b'']
      else if n = 9 then [CHR 0x5C, CHR ''t'']
      else if n = 10 then [CHR 0x5C, CHR ''n'']
      else if n = 12 then [CHR 0x5C, CHR ''f'']
      else if n = 13 then [CHR 0x5C, CHR ''r'']
      else if n = 34 then [CHR 0x5C, CHR 0x22]
      else if n = 92 then [CHR 0x5C, CHR 0x5C]
      else if n < 32 then
        [CHR 0x5C, CHR ''u'', CHR ''0'', CHR ''0'', hex_char (n div 16), hex_char (n mod 16)]
      else [c])"

definition JSON_quote :: "string \<Rightarrow> string" where
  "JSON_quote s = CHR 0x22 # concat (map quote_char s) @ [CHR 0x22]"

fun stringify_value :: "json_value \<Rightarrow> string" where
  "stringify_value (JString s) = JSON_quote s"
| "stringify_value (JNumber n) = show_nat n"

definition stringify_member :: "string \<times> json_value \<Rightarrow> string" where
  "stringify_member m = JSON_quote (fst m) @ '':'' @ stringify_value (snd m)"

fun join_commas :: "string list \<Rightarrow> string" where
  "join_commas [] = []"
| "join_commas [x] = x"
| "join_commas (x # y # ys) = x @ '','' @ join_commas (y # ys)"

definition JSON_stringify :: "json_object \<Rightarrow> string" where
  "JSON_stringify obj = ''{'' @ join_commas (map stringify_member obj) @ ''}''"

text \<open>
  \<open>jose.base64url.encode\<close>: base64 with the URL-safe alphabet and without padding.
\<close>

definition base64url_alphabet :: string where
  "base64url_alphabet = ''ABCDEFGHIJKLMNOPQRSTUVWXYZabcdefghijklmnopqrstuvwxyz0123456789-_''"

definition sextet_char :: "nat \<Rightarrow> char" where
  "sextet_char n = base64url_alphabet ! n"

fun base64url_encode :: "string \<Rightarrow> string" where
  "base64url_encode (a # b # c # rest) =
     (let n = (of_char a :: nat) * 65536 + of_char b * 256 + of_char c in
      sextet_char (n div 262144) # sextet_char (n div 4096 mod 64)
        # sextet_char (n div 64 mod 64) # sextet_char (n mod 64) # base64url_encode rest)"
| "base64url_encode [a, b] =
     (let n = (of_char a :: nat) * 1024 + of_char b * 4 in
      [sextet_char (n div 4096), sextet_char (n div 64 mod 64), sextet_char (n mod 64)])"
| "base64url_encode [a] =
     (let n = (of_char a :: nat) * 16 in
      [sextet_char (n div 64), sextet_char (n mod 64)])"
| "base64url_encode [] = []"

text \<open>
  The fields of the class: the TTL in hours (the comment in the code gives the
  provider's maximum, 24 hours, that is 86400 seconds).
\<close>

definition expiresIn :: nat where
  "expiresIn = 20"

definition encodeData :: "json_object \<Rightarrow> string" where
  "encodeData data = base64url_encode (JSON_stringify data)"

definition getJWTHeader :: "string \<Rightarrow> string" where
  "getJWTHeader applicationId =
     encodeData [(''typ'', JString ''JWT''), (''alg'', JString ''RS256''),
                 (''kid'', JString applicationId)]"

text \<open>
  \<open>#getJWTBody(exp)\<close> when \<open>Date.now()\<close> is \<open>now_ms\<close>.
\<close>

definition getJWTBody :: "nat \<Rightarrow> nat \<Rightarrow> string" where
  "getJWTBody now_ms exp_s =
     (let timestamp = now_ms div 1000 in
      encodeData [(''iss'', JString ''enablebanking.com''),
                  (''aud'', JString ''api.enablebanking.com''),
                  (''iat'', JNumber timestamp),
                  (''exp'', JNumber (timestamp + exp_s))])"

text \<open>
  \<open>#signWithKey(data)\<close>: \<open>rsa_sign\<close> stands for the import of the PKCS8 key and the
  RSASSA-PKCS1-v1_5 signature of the Web Crypto API, which gives the signature bytes or
  throws; the error is logged and thrown again.
\<close>

definition signWithKey ::
  "(string \<Rightarrow> string \<Rightarrow> js_error + string) \<Rightarrow> string \<Rightarrow> string \<Rightarrow> js_error + string"
where
  "signWithKey rsa_sign keyContent data =
     (case rsa_sign keyContent data of
        Inl error \<Rightarrow> Inl error
      | Inr signature \<Rightarrow> Inr (base64url_encode signature))"

definition generateJWT ::
  "(string \<Rightarrow> string \<Rightarrow> js_error + string) \<Rightarrow> string \<Rightarrow> string \<Rightarrow> nat \<Rightarrow> js_error + string"
where
  "generateJWT rsa_sign applicationId keyContent now_ms =
     (let exp_s = expiresIn * 60 * 60;
          jwtHeaders = getJWTHeader applicationId;
          jwtBody = getJWTBody now_ms exp_s
      in case signWithKey rsa_sign keyContent (jwtHeaders @ ''.'' @ jwtBody) of
           Inl error \<Rightarrow> Inl error
         | Inr jwtSignature \<Rightarrow> Inr (jwtHeaders @ ''.'' @ jwtBody @ ''.'' @ jwtSignature))"

section \<open>Decoding an assertion\<close>

text \<open>
  The reader's side of the round trip: the assertion is split at the dots, a segment
  is decoded from base64url, and the text of the header and of the body is parsed as a
  flat JSON object.
\<close>

fun index_of :: "'a \<Rightarrow> 'a list \<Rightarrow> nat option" where
  "index_of x [] = None"
| "index_of x (y # ys) = (if x = y then Some 0 else map_option Suc (index_of x ys))"

definition sextet_value :: "char \<Rightarrow> nat option" where
  "sextet_value c = index_of c base64url_alphabet"

fun base64url_decode :: "string \<Rightarrow> string option" where
  "base64url_decode (a # b # c # d # rest) =
     (case (sextet_value a, sextet_value b, sextet_value c, sextet_value d,
            base64url_decode rest) of
        (Some x, Some y, Some z, Some u, Some bytes) \<Rightarrow>
          (let n = ((x * 64 + y) * 64 + z) * 64 + u in
           Some (char_of (n div 65536) # char_of (n div 256 mod 256) # char_of (n mod 256)
                   # bytes))
      | _ \<Rightarrow> None)"
| "base64url_decode [a, b, c] =
     (case (sextet_value a, sextet_value b, sextet_value c) of
        (Some x, Some y, Some z) \<Rightarrow>
          (let n = (x * 64 + y) * 64 + z in
           Some [char_of (n div 1024), char_of (n div 4 mod 256)])
      | _ \<Rightarrow> None)"
| "base64url_decode [a, b] =
     (case (sextet_value a, sextet_value b) of
        (Some x, Some y) \<Rightarrow> Some [char_of ((x * 64 + y) div 16)]
      | _ \<Rightarrow> None)"
| "base64url_decode [a] = None"
| "base64url_decode [] = Some []"

text \<open>
  \<open>token.split(".")\<close>.
\<close>

fun split_dots :: "string \<Rightarrow> string list" where
  "split_dots [] = [[]]"
| "split_dots (c # cs) =
     (if c = CHR ''.'' then [] # split_dots cs
      else (case split_dots cs of [] \<Rightarrow> [[c]] | seg # segs \<Rightarrow> (c # seg) # segs))"

definition digit_value :: "char \<Rightarrow> nat option" where
  "digit_value c = (let n = (of_char c :: nat) in if 48 \<le> n \<and> n \<le> 57 then Some (n - 48) else None)"

fun digits_value :: "nat \<Rightarrow> string \<Rightarrow> nat option" where
  "digits_value acc [] = Some acc"
| "digits_value acc (c # cs) =
     (case digit_value c of None \<Rightarrow> None | Some d \<Rightarrow> digits_value (10 * acc + d) cs)"

definition hex_value :: "char \<Rightarrow> nat option" where
  "hex_value c = index_of c ''0123456789abcdef''"

definition unescape :: "char \<Rightarrow> char option" where
  "unescape e =
     (if e = CHR ''b'' then Some (char_of (8 :: nat))
      else if e = CHR ''t'' then Some (char_of (9 :: nat))
      else if e = CHR ''n'' then Some (char_of (10 :: nat))
      else if e = CHR ''f'' then Some (char_of (12 :: nat))
      else if e = CHR ''r'' then Some (char_of (13 :: nat))
      else if e = CHR 0x22 then Some (CHR 0x22)
      else if e = CHR 0x5C then Some (CHR 0x5C)
      else None)"

text \<open>
  The characters of a JSON string after its opening quotation mark, up to the closing
  one: the string they denote and the text that follows.
\<close>

fun parse_string_body :: "string \<Rightarrow> (string \<times> string) option" where
  "parse_string_body [] = None"
| "parse_string_body (c # cs) =
     (if c = CHR 0x22 then Some ([], cs)
      else if c = CHR 0x5C then
        (case cs of
           [] \<Rightarrow> None
         | e # cs' \<Rightarrow>
             (if e = CHR ''u'' then
                (case cs' of
                   h1 # h2 # h3 # h4 # cs'' \<Rightarrow>
                     (case (hex_value h1, hex_value h2, hex_value h3, hex_value h4) of
                        (Some x1, Some x2, Some x3, Some x4) \<Rightarrow>
                          (let n = ((x1 * 16 + x2) * 16 + x3) * 16 + x4 in
                           if n < 256
                           then map_option (\<lambda>(s, r). (char_of n # s, r)) (parse_string_body cs'')
                           else None)
                      | _ \<Rightarrow> None)
                 | _ \<Rightarrow> None)
              else
                (case unescape e of
                   None \<Rightarrow> None
                 | Some ch \<Rightarrow> map_option (\<lambda>(s, r). (ch # s, r)) (parse_string_body cs'))))
      else map_option (\<lambda>(s, r). (c # s, r)) (parse_string_body cs))"

definition is_digit :: "char \<Rightarrow> bool" where
  "is_digit c \<longleftrightarrow> digit_value c \<noteq> None"

definition parse_number :: "string \<Rightarrow> (nat \<times> string) option" where
  "parse_number s =
     (let ds = takeWhile is_digit s in
      if ds = [] then None
      else map_option (\<lambda>n. (n, dropWhile is_digit s)) (digits_value 0 ds))"

definition parse_value :: "string \<Rightarrow> (json_value \<times> string) option" where
  "parse_value s =
     (case s of
        [] \<Rightarrow> None
      | c # cs \<Rightarrow>
          (if c = CHR 0x22 then map_option (\<lambda>(v, r). (JString v, r)) (parse_string_body cs)
           else map_option (\<lambda>(n, r). (JNumber n, r)) (parse_number s)))"

definition parse_member :: "string \<Rightarrow> ((string \<times> json_value) \<times> string) option" where
  "parse_member s =
     (case s of
        [] \<Rightarrow> None
      | c # cs \<Rightarrow>
          (if c = CHR 0x22 then
             (case parse_string_body cs of
                None \<Rightarrow> None
              | Some (k, r) \<Rightarrow>
                  (case r of
                     [] \<Rightarrow> None
                   | colon # r' \<Rightarrow>
                       (if colon = CHR '':''
                        then map_option (\<lambda>(v, r''). ((k, v), r'')) (parse_value r')
                        else None)))
           else None))"

text \<open>
  The members of an object up to its closing brace; \<open>fuel\<close> bounds their number.
\<close>

fun parse_members :: "nat \<Rightarrow> string \<Rightarrow> json_object option" where
  "parse_members 0 s = None"
| "parse_members (Suc fuel) s =
     (case parse_member s of
        None \<Rightarrow> None
      | Some (m, r) \<Rightarrow>
          (if r = ''}'' then Some [m]
           else (case r of
                   [] \<Rightarrow> None
                 | c # r' \<Rightarrow>
                     (if c = CHR '','' then map_option ((#) m) (parse_members fuel r')
                      else None))))"

definition JSON_parse_object :: "string \<Rightarrow> json_object option" where
  "JSON_parse_object s =
     (if s = ''{}'' then Some []
      else (case s of
              [] \<Rightarrow> None
            | c # r \<Rightarrow> (if c = CHR ''{'' then parse_members (length r) r else None)))"

definition decode_segment :: "string \<Rightarrow> json_object option" where
  "decode_segment seg =
     (case base64url_decode seg of None \<Rightarrow> None | Some text \<Rightarrow> JSON_parse_object text)"

section \<open>Vocabulary of the claims about getAccounts\<close>

text \<open>
  A work item completes within the per-account timeout when its latency is below
  \<open>ACCOUNT_TIMEOUT\<close>, or equal to it while the runtime lets the work win the tie.
\<close>

definition in_time :: "bool \<Rightarrow> nat \<Rightarrow> bool" where
  "in_time tf latency \<longleftrightarrow> latency < ACCOUNT_TIMEOUT \<or> (latency = ACCOUNT_TIMEOUT \<and> \<not> tf)"

text \<open>
  The fetch of the account \<open>a\<close>, as work item number \<open>k\<close>, succeeds when the provider
  answers both the details call and the balances call, and the later of the two answers
  arrives in time. In every other case (an error reply to either call, a reply that is
  late or never comes) the fetch fails.
\<close>

definition fetch_succeeds :: "('d, 'n) world \<Rightarrow> nat \<Rightarrow> account_id \<Rightarrow> bool" where
  "fetch_succeeds w k a =
     (case details_reply w k a of
        Never \<Rightarrow> False
      | Settles d1 (rejected e) \<Rightarrow> False
      | Settles d1 (fulfilled v) \<Rightarrow>
          (case balances_reply w k a of
             Never \<Rightarrow> False
           | Settles d2 (rejected e) \<Rightarrow> False
           | Settles d2 (fulfilled r) \<Rightarrow> in_time (timer_first w) (max d1 d2)))"

text \<open>
  \<open>v\<close> is the account record of the account \<open>a\<close> (work item \<open>k\<close>): the provider
  answered both calls, and \<open>v\<close> is built from the details, the session's institution
  and validity, and the highest balance.
\<close>

definition is_account_record ::
  "('d, 'n::linorder) world \<Rightarrow> GetSessionResponse \<Rightarrow> nat \<Rightarrow> account_id
     \<Rightarrow> 'd GetAccountDetailsResponse \<Rightarrow> bool"
where
  "is_account_record w session k a v =
     (case details_reply w k a of
        Never \<Rightarrow> False
      | Settles d1 (rejected e) \<Rightarrow> False
      | Settles d1 (fulfilled dv) \<Rightarrow>
          (case balances_reply w k a of
             Never \<Rightarrow> False
           | Settles d2 (rejected e) \<Rightarrow> False
           | Settles d2 (fulfilled response) \<Rightarrow>
               highestBalance (parseFloat w) response = Inr (balance v)
               \<and> v = \<lparr>details = dv, institution = aspsp session,
                        account_valid_until = valid_until (access session),
                        balance = balance v\<rparr>))"

text \<open>
  The positions and ids of a session's account list whose fetch fails, and those whose
  fetch succeeds, in the order of the list.
\<close>

definition failed_fetches ::
  "('d, 'n) world \<Rightarrow> account_id list \<Rightarrow> (nat \<times> account_id) list" where
  "failed_fetches w ids = filter (\<lambda>(k, a). \<not> fetch_succeeds w k a) (enumerate 0 ids)"

definition successful_fetches ::
  "('d, 'n) world \<Rightarrow> account_id list \<Rightarrow> (nat \<times> account_id) list" where
  "successful_fetches w ids = filter (\<lambda>(k, a). fetch_succeeds w k a) (enumerate 0 ids)"

fun is_rejected :: "'a settled \<Rightarrow> bool" where
  "is_rejected (rejected e) = True"
| "is_rejected (fulfilled v) = False"

fun fulfilled_values :: "'a settled list \<Rightarrow> 'a list" where
  "fulfilled_values [] = []"
| "fulfilled_values (fulfilled v # rs) = v # fulfilled_values rs"
| "fulfilled_values (rejected e # rs) = fulfilled_values rs"

text \<open>
  The batch runs \<open>rs\<close> happen one after the other from the instant \<open>now\<close> on: a run is
  dispatched when the run before it has settled (the first one at \<open>now\<close>), and every
  promise of a run settles between the run's dispatch and its end.
\<close>

fun settles_within :: "time \<Rightarrow> time \<Rightarrow> 'a promise \<Rightarrow> bool" where
  "settles_within lo hi Never = False"
| "settles_within lo hi (Settles t r) = (lo \<le> t \<and> t \<le> hi)"

fun sequential :: "time \<Rightarrow> 'a batch_run list \<Rightarrow> bool" where
  "sequential now [] = True"
| "sequential now (r # rs) =
     (dispatched_at r = now \<and> now \<le> settled_at r
      \<and> list_all (settles_within now (settled_at r)) (item_promises r)
      \<and> sequential (settled_at r) rs)"

section \<open>The calendar date of a request\<close>

text \<open>
  The day number of a calendar date: the days from 1970-01-01 to the day \<open>d\<close> of the
  month \<open>m\<close> of the year \<open>y\<close> in the proleptic Gregorian calendar. The count goes by
  eras of 400 years (146097 days) and by years that begin in March, so that the leap
  day is the last day of such a year.
\<close>

definition days_from_civil :: "int \<Rightarrow> int \<Rightarrow> int \<Rightarrow> int" where
  "days_from_civil y m d =
     (let y' = (if m \<le> 2 then y - 1 else y);
          era = y' div 400;
          yoe = y' - era * 400;
          mp = (if m > 2 then m - 3 else m + 9);
          doy = (153 * mp + 2) div 5 + d - 1;
          doe = yoe * 365 + yoe div 4 - yoe div 100 + doy
      in era * 146097 + doe - 719468)"

text \<open>
  Leap years, and the number of days of the month \<open>m\<close> of the year \<open>y\<close>.
\<close>

definition is_leap_year :: "int \<Rightarrow> bool" where
  "is_leap_year y \<longleftrightarrow> y mod 4 = 0 \<and> (y mod 100 \<noteq> 0 \<or> y mod 400 = 0)"

definition days_in_month :: "int \<Rightarrow> int \<Rightarrow> int" where
  "days_in_month y m =
     (if m = 2 then (if is_leap_year y then 29 else 28)
      else if m = 4 \<or> m = 6 \<or> m = 9 \<or> m = 11 then 30
      else 31)"

text \<open>
  The reader of a date written \<open>yyyy-MM-dd\<close>: a year of four digits (of more digits
  only without a leading zero, and with a minus sign only when it is not zero), a
  hyphen, a month of two digits, a hyphen and a day of two digits. Every other string
  is refused, so that a year, a month and a day have one spelling.
\<close>

definition parse_iso_date :: "string \<Rightarrow> (int \<times> int \<times> int) option" where
  "parse_iso_date s =
     (let negative = (s \<noteq> [] \<and> hd s = CHR ''-'');
          unsigned = (if negative then tl s else s);
          ys = takeWhile is_digit unsigned;
          rest = dropWhile is_digit unsigned
      in if length ys < 4 \<or> (4 < length ys \<and> hd ys = CHR ''0'') \<or> length rest \<noteq> 6
            \<or> rest ! 0 \<noteq> CHR ''-'' \<or> rest ! 3 \<noteq> CHR ''-''
         then None
         else (case (digits_value 0 ys, digits_value 0 (take 2 (drop 1 rest)),
                     digits_value 0 (drop 4 rest)) of
                 (Some y, Some m, Some d) \<Rightarrow>
                   if negative \<and> y = 0 then None
                   else Some (if negative then - int y else int y, int m, int d)
               | _ \<Rightarrow> None))"

text \<open>
  The output of \<open>addLeadingZeros\<close> without its sign: the digits of \<open>n\<close> with zeros on
  the left up to the target length.
\<close>

definition zero_padded :: "nat \<Rightarrow> nat \<Rightarrow> string" where
  "zero_padded n targetLength =
     replicate (targetLength - length (show_nat n)) (CHR ''0'') @ show_nat n"

text \<open>
  Two quantities of \<open>civil_from_days\<close>: the days of an era that lie before its year
  \<open>y\<close>, and the numerator of the year that it computes from the day of the era.
\<close>

definition era_days_before :: "int \<Rightarrow> int" where
  "era_days_before y = 365 * y + y div 4 - y div 100"

definition year_estimate :: "int \<Rightarrow> int" where
  "year_estimate doe = doe - doe div 1460 + doe div 36524 - doe div 146096"

section \<open>Vocabulary of the claims about balances and transactions\<close>

text \<open>
  The comparison \<open>\<ge>\<close> of two JavaScript numbers: it is false when either of them is
  \<open>NaN\<close>.
\<close>

definition js_ge :: "('n::linorder) option \<Rightarrow> 'n option \<Rightarrow> bool" where
  "js_ge a b = (case (a, b) of (Some x, Some y) \<Rightarrow> y \<le> x | _ \<Rightarrow> False)"

text \<open>
  Modelled from the spec: the type \<open>GetTransactionsResponse\<close> of the provider's
  transaction list is declared in \<open>./types\<close>, which is not among the sources. A
  transaction has the fields that the spec names (id, amount, currency, date,
  counterparty, status), and it is booked when its status is \<open>BOOK\<close>; the provider
  marks a pending transaction \<open>PDNG\<close>.
\<close>

record transaction_t =
  txn_id :: string
  txn_amount :: string
  txn_currency :: string
  txn_date :: string
  txn_counterparty :: string
  txn_status :: string

record GetTransactionsResponse =
  transactions :: "transaction_t list"

definition booked :: "transaction_t \<Rightarrow> bool" where
  "booked t \<longleftrightarrow> txn_status t = ''BOOK''"

section \<open>An example environment\<close>

text \<open>
  A stand-in for \<open>Number.parseFloat\<close> in the examples: a non-empty string of decimal
  digits is read as the number it denotes, any other string gives \<open>NaN\<close>. The theorems
  hold for every \<open>parseFloat\<close>.
\<close>

definition parse_digits :: "string \<Rightarrow> nat option" where
  "parse_digits s = (if s = [] then None else digits_value 0 s)"

text \<open>
  A session of five accounts: the provider answers the details and balances calls of
  four of them, sends an empty balance list for the third, and never answers the
  details call of the fifth.
\<close>

definition example_balances :: GetBalancesResponse where
  "example_balances =
     \<lparr>balances =
        [\<lparr>balance_amount = \<lparr>amount = ''120'', currency = ''EUR''\<rparr>, balance_type = ''CLBD''\<rparr>,
         \<lparr>balance_amount = \<lparr>amount = ''250'', currency = ''EUR''\<rparr>, balance_type = ''ITAV''\<rparr>,
         \<lparr>balance_amount = \<lparr>amount = ''250'', currency = ''EUR''\<rparr>, balance_type = ''XPCD''\<rparr>]\<rparr>"

definition example_session :: GetSessionResponse where
  "example_session =
     \<lparr>accounts = [''a1'', ''a2'', ''a3'', ''a4'', ''a5''],
      aspsp = \<lparr>aspsp_name = ''Nordea'', aspsp_country = ''SE''\<rparr>,
      access = \<lparr>valid_until = ''2026-12-31T00:00:00Z''\<rparr>\<rparr>"

definition example_world :: "(string, nat) world" where
  "example_world =
     \<lparr>session_reply = (\<lambda>session_id. Settles 150 (fulfilled example_session)),
      details_reply = (\<lambda>k a. if a = ''a5'' then Never else Settles (100 + 10 * k) (fulfilled (''details of '' @ a))),
      balances_reply = (\<lambda>k a. if a = ''a3'' then Settles 90 (fulfilled \<lparr>balances = []\<rparr>)
                               else Settles 200 (fulfilled example_balances)),
      parseFloat = parse_digits,
      timer_first = True\<rparr>"


text \<open>
  The same provider with a session that holds no account.
\<close>

definition empty_session :: GetSessionResponse where
  "empty_session =
     \<lparr>accounts = [],
      aspsp = \<lparr>aspsp_name = ''Nordea'', aspsp_country = ''SE''\<rparr>,
      access = \<lparr>valid_until = ''2026-12-31T00:00:00Z''\<rparr>\<rparr>"

definition empty_world :: "(string, nat) world" where
  "empty_world = example_world\<lparr>session_reply := (\<lambda>session_id. Settles 150 (fulfilled empty_session))\<rparr>"

text \<open>
  An error normaliser for the examples of the handler.
\<close>

definition example_createErrorResponse :: "js_error \<Rightarrow> error_t" where
  "example_createErrorResponse e =
     (case e of
        Error m \<Rightarrow> \<lparr>error_code = ''unknown'', error_message = m\<rparr>
      | TypeError m \<Rightarrow> \<lparr>error_code = ''unknown'', error_message = m\<rparr>
      | UpstreamError c \<Rightarrow> \<lparr>error_code = c, error_message = ''provider error''\<rparr>)"

text \<open>
  A signing function for the examples: it returns the same three bytes for every key
  and text.
\<close>

definition example_sign :: "string \<Rightarrow> string \<Rightarrow> js_error + string" where
  "example_sign keyContent data = Inr ''sig''"

text \<open>
  A provider whose balances answer holds an amount that is not a number, ahead of an
  amount that is one.
\<close>

definition nan_balances :: GetBalancesResponse where
  "nan_balances =
     \<lparr>balances =
        [\<lparr>balance_amount = \<lparr>amount = ''abc'', currency = ''EUR''\<rparr>, balance_type = ''CLBD''\<rparr>,
         \<lparr>balance_amount = \<lparr>amount = ''5'', currency = ''EUR''\<rparr>, balance_type = ''ITAV''\<rparr>]\<rparr>"

definition nan_world :: "(string, nat) world" where
  "nan_world = example_world\<lparr>balances_reply := (\<lambda>k a. Settles 200 (fulfilled nan_balances))\<rparr>"

text \<open>
  A provider that does not honour the status filter: its answer to every request holds
  a booked and a pending transaction.
\<close>

definition booked_transaction :: transaction_t where
  "booked_transaction =
     \<lparr>txn_id = ''t1'', txn_amount = ''-40.00'', txn_currency = ''EUR'',
      txn_date = ''2026-11-01'', txn_counterparty = ''Grocer'', txn_status = ''BOOK''\<rparr>"

definition pending_transaction :: transaction_t where
  "pending_transaction =
     \<lparr>txn_id = ''t2'', txn_amount = ''-12.50'', txn_currency = ''EUR'',
      txn_date = ''2026-11-02'', txn_counterparty = ''Cafe'', txn_status = ''PDNG''\<rparr>"

definition unfiltered_provider :: "request \<Rightarrow> GetTransactionsResponse promise" where
  "unfiltered_provider rq =
     Settles 120 (fulfilled \<lparr>transactions = [booked_transaction, pending_transaction]\<rparr>)"

text \<open>
  The definitions that evaluate the examples.
\<close>

lemmas eval_defs = getAccounts_def processAccountBatch_def batch_items_def account_item_def accountPromise_def
  getAccountDetails_def getAccountBalance_def highestBalance_def highest_step_def js_index_def js_gt_def
  timeoutPromise_def ACCOUNT_TIMEOUT_def MAX_CONCURRENT_def slice_def accountBatches_loop.simps
  fetch_succeeds_def failed_fetches_def successful_fetches_def in_time_def
  example_world_def example_session_def example_balances_def parse_digits_def digit_value_def
  empty_world_def empty_session_def


section \<open>The highest balance\<close>

lemma highest_reduce_total:
  "\<exists>r. reduce (highest_step pf) xs (Some m) = Inr (Some r)"
  by (induction xs arbitrary: m) (auto simp: highest_step_def Let_def)

lemma highestBalance_total: "\<exists>b. highestBalance pf response = Inr b"
proof (cases "balances response")
  case Nil
  then show ?thesis by (simp add: highestBalance_def js_index_def)
next
  case (Cons m xs)
  obtain r where "reduce (highest_step pf) (m # xs) (Some m) = Inr (Some r)"
    using highest_reduce_total by blast
  then show ?thesis by (simp add: highestBalance_def js_index_def Cons)
qed


lemma reduce_highest:
  fixes pf :: "string \<Rightarrow> ('n::linorder) option"
  assumes "\<forall>b \<in> set (m # xs). pf (amount (balance_amount b)) \<noteq> None"
  shows "\<exists>r x. reduce (highest_step pf) xs (Some m) = Inr (Some r) \<and> r \<in> set (m # xs)
           \<and> pf (amount (balance_amount r)) = Some x
           \<and> (\<forall>b \<in> set (m # xs). \<exists>y. pf (amount (balance_amount b)) = Some y \<and> y \<le> x)"
  using assms
proof (induction xs arbitrary: m)
  case Nil
  then show ?case by auto
next
  case (Cons c xs)
  obtain cv mv where cv: "pf (amount (balance_amount c)) = Some cv"
    and mv: "pf (amount (balance_amount m)) = Some mv"
    using Cons.prems by auto
  let ?m' = "if mv < cv then c else m"
  have step: "highest_step pf (Some m) c = Inr (Some ?m')"
    by (simp add: highest_step_def js_gt_def cv mv)
  have "\<forall>b \<in> set (?m' # xs). pf (amount (balance_amount b)) \<noteq> None"
    using Cons.prems by auto
  from Cons.IH[OF this] obtain r x where
    r: "reduce (highest_step pf) xs (Some ?m') = Inr (Some r)" "r \<in> set (?m' # xs)"
       "pf (amount (balance_amount r)) = Some x"
       "\<forall>b \<in> set (?m' # xs). \<exists>y. pf (amount (balance_amount b)) = Some y \<and> y \<le> x"
    by blast
  have m'x: "\<exists>y. pf (amount (balance_amount ?m')) = Some y \<and> y \<le> x"
    using r(4) by simp
  have "\<exists>y. pf (amount (balance_amount c)) = Some y \<and> y \<le> x"
    using m'x cv mv by (auto split: if_splits)
  moreover have "\<exists>y. pf (amount (balance_amount m)) = Some y \<and> y \<le> x"
    using m'x cv mv by (auto split: if_splits)
  moreover have "r \<in> set (m # c # xs)" using r(2) by (auto split: if_splits)
  ultimately show ?case
    using r step by auto
qed

text \<open>
  Claim C3, as the code has it. For every provider balance response with at least one
  entry in which every amount is a number for \<open>parseFloat\<close>, \<open>getAccountBalance\<close>
  fulfils with an entry of the list whose amount is numerically greater than or equal
  to the amount of every entry: the highest balance is selected, not an average.
\<close>

theorem getAccountBalance_returns_highest:
  fixes w :: "('d, 'n::linorder) world"
  assumes reply: "balances_reply w k accountId = Settles t (fulfilled response)"
    and nonempty: "balances response \<noteq> []"
    and numeric: "\<forall>b \<in> set (balances response). parseFloat w (amount (balance_amount b)) \<noteq> None"
  shows "\<exists>r x. getAccountBalance w k accountId = Settles t (fulfilled (Some r))
           \<and> r \<in> set (balances response)
           \<and> parseFloat w (amount (balance_amount r)) = Some x
           \<and> (\<forall>b \<in> set (balances response).
                 \<exists>y. parseFloat w (amount (balance_amount b)) = Some y \<and> y \<le> x)"
proof -
  obtain m xs where bs: "balances response = m # xs"
    using nonempty by (cases "balances response") auto
  have "\<forall>b \<in> set (m # xs). parseFloat w (amount (balance_amount b)) \<noteq> None"
    using numeric bs by simp
  from reduce_highest[OF this] obtain r x where
    r: "reduce (highest_step (parseFloat w)) xs (Some m) = Inr (Some r)" "r \<in> set (m # xs)"
       "parseFloat w (amount (balance_amount r)) = Some x"
       "\<forall>b \<in> set (m # xs). \<exists>y. parseFloat w (amount (balance_amount b)) = Some y \<and> y \<le> x"
    by blast
  obtain mv where mv: "parseFloat w (amount (balance_amount m)) = Some mv"
    using r(4) by auto
  have first: "highest_step (parseFloat w) (Some m) m = Inr (Some m)"
    by (simp add: highest_step_def js_gt_def mv)
  have "highestBalance (parseFloat w) response = Inr (Some r)"
    by (simp add: highestBalance_def bs js_index_def first r(1))
  then have "getAccountBalance w k accountId = Settles t (fulfilled (Some r))"
    by (simp add: getAccountBalance_def reply)
  then show ?thesis using r bs by auto
qed

theorem getAccountBalance_returns_highest_witness:
  "balances_reply example_world 0 ''a1'' = Settles 200 (fulfilled example_balances)
   \<and> balances example_balances \<noteq> []
   \<and> getAccountBalance example_world 0 ''a1'' =
       Settles 200 (fulfilled (Some
         \<lparr>balance_amount = \<lparr>amount = ''250'', currency = ''EUR''\<rparr>, balance_type = ''ITAV''\<rparr>))
   \<and> (\<exists>r x. getAccountBalance example_world 0 ''a1'' = Settles 200 (fulfilled (Some r))
           \<and> r \<in> set (balances example_balances)
           \<and> parseFloat example_world (amount (balance_amount r)) = Some x
           \<and> (\<forall>b \<in> set (balances example_balances).
                 \<exists>y. parseFloat example_world (amount (balance_amount b)) = Some y \<and> y \<le> x))"
proof -
  have reply: "balances_reply example_world 0 ''a1'' = Settles 200 (fulfilled example_balances)"
    by (simp add: example_world_def)
  have nonempty: "balances example_balances \<noteq> []"
    by (simp add: example_balances_def)
  have numeric: "\<forall>b \<in> set (balances example_balances).
      parseFloat example_world (amount (balance_amount b)) \<noteq> None"
    by (simp add: example_world_def example_balances_def parse_digits_def digit_value_def)
  have val: "getAccountBalance example_world 0 ''a1'' =
       Settles 200 (fulfilled (Some
         \<lparr>balance_amount = \<lparr>amount = ''250'', currency = ''EUR''\<rparr>, balance_type = ''ITAV''\<rparr>))"
    by (simp add: getAccountBalance_def example_world_def example_balances_def highestBalance_def
        js_index_def highest_step_def js_gt_def parse_digits_def digit_value_def)
  show ?thesis
    using getAccountBalance_returns_highest[OF reply nonempty numeric] reply nonempty val
    by simp
qed

text \<open>
  The claim C3 as stated covers every response with at least one entry. When the
  amount of the first entry is not a number, every comparison with it is false:
  the code returns the first entry, whose amount is not greater than or equal to the
  numeric amount of the entry after it.
\<close>

theorem getAccountBalance_nan_counterexample:
  "balances_reply nan_world 0 ''a1'' = Settles 200 (fulfilled nan_balances)
   \<and> balances nan_balances
       = [\<lparr>balance_amount = \<lparr>amount = ''abc'', currency = ''EUR''\<rparr>, balance_type = ''CLBD''\<rparr>,
          \<lparr>balance_amount = \<lparr>amount = ''5'', currency = ''EUR''\<rparr>, balance_type = ''ITAV''\<rparr>]
   \<and> getAccountBalance nan_world 0 ''a1''
       = Settles 200 (fulfilled (Some
           \<lparr>balance_amount = \<lparr>amount = ''abc'', currency = ''EUR''\<rparr>, balance_type = ''CLBD''\<rparr>))
   \<and> parseFloat nan_world ''abc'' = None
   \<and> parseFloat nan_world ''5'' = Some 5
   \<and> \<not> js_ge (parseFloat nan_world ''abc'') (parseFloat nan_world ''5'')"
  by (simp add: getAccountBalance_def nan_world_def nan_balances_def example_world_def
      highestBalance_def js_index_def highest_step_def js_gt_def js_ge_def parse_digits_def
      digit_value_def)

text \<open>
  Claim C10. When the provider returns an empty balances list, \<open>getAccountBalance\<close>
  fulfils with \<open>undefined\<close>: it neither rejects nor returns a balance record.
\<close>

theorem getAccountBalance_empty_undefined:
  fixes w :: "('d, 'n::linorder) world"
  assumes "balances_reply w k accountId = Settles t (fulfilled response)"
    and "balances response = []"
  shows "getAccountBalance w k accountId = Settles t (fulfilled None)"
  using assms by (simp add: getAccountBalance_def highestBalance_def js_index_def)

theorem getAccountBalance_empty_undefined_witness:
  "balances_reply example_world 2 ''a3'' = Settles 90 (fulfilled \<lparr>balances = []\<rparr>)
   \<and> balances \<lparr>balances = []\<rparr> = []
   \<and> getAccountBalance example_world 2 ''a3'' = Settles 90 (fulfilled None)"
proof -
  have reply: "balances_reply example_world 2 ''a3'' = Settles 90 (fulfilled \<lparr>balances = []\<rparr>)"
    by (simp add: example_world_def)
  have empty: "balances \<lparr>balances = []\<rparr> = []" by simp
  show ?thesis
    using getAccountBalance_empty_undefined[OF reply empty] reply by simp
qed

section \<open>Promises and time\<close>

lemma issued_at_then: "issued_at now (then_promise p f) = then_promise (issued_at now p) f"
  by (induction p f rule: then_promise.induct) (auto split: sum.splits)

lemma issued_at_zero: "issued_at 0 p = p"
  by (cases p) auto

lemma issued_at_all:
  "issued_at now (Promise_all p q) = Promise_all (issued_at now p) (issued_at now q)"
  by (induction p q rule: Promise_all.induct) auto

lemma issued_at_race:
  "issued_at now (Promise_race tf p q) = Promise_race tf (issued_at now p) (issued_at now q)"
  by (induction tf p q rule: Promise_race.induct) auto

lemma accountPromise_shift:
  "accountPromise w session now k a = issued_at now (accountPromise w session 0 k a)"
  by (simp add: accountPromise_def issued_at_then issued_at_all issued_at_zero)

lemma account_item_shift:
  "account_item w session now k a = issued_at now (account_item w session 0 k a)"
  unfolding account_item_def
  by (subst accountPromise_shift) (simp add: issued_at_race timeoutPromise_def)

lemma race_timer_settles:
  "\<exists>t r. Promise_race tf p (timeoutPromise now ms msg) = Settles t r \<and> t \<le> now + ms"
  by (cases p) (auto simp: timeoutPromise_def)

lemma account_item_settles:
  "\<exists>d r. account_item w session 0 k a = Settles d r \<and> d \<le> ACCOUNT_TIMEOUT"
  using race_timer_settles[of "timer_first w" _ 0 ACCOUNT_TIMEOUT] by (simp add: account_item_def)

lemma allSettled_settles:
  assumes "\<forall>p \<in> set ps. \<exists>t r. p = Settles t r \<and> t \<le> hi" and "now \<le> hi"
  shows "\<exists>u rs. Promise_allSettled now ps = Settles u (fulfilled rs) \<and> now \<le> u \<and> u \<le> hi
           \<and> list_all2 (\<lambda>p r. \<exists>s. p = Settles s r \<and> s \<le> u) ps rs"
  using assms
proof (induction ps)
  case Nil
  then show ?case by simp
next
  case (Cons p ps)
  then obtain t r where p: "p = Settles t r" "t \<le> hi" by auto
  from Cons obtain u rs where u: "Promise_allSettled now ps = Settles u (fulfilled rs)" "now \<le> u" "u \<le> hi"
     and la: "list_all2 (\<lambda>p r. \<exists>s. p = Settles s r \<and> s \<le> u) ps rs" by auto
  have la': "list_all2 (\<lambda>p r. \<exists>s. p = Settles s r \<and> s \<le> max t u) ps rs"
    using la by (rule list_all2_mono) auto
  have "Promise_allSettled now (p # ps) = Settles (max t u) (fulfilled (r # rs))"
    by (simp add: p u)
  moreover have "now \<le> max t u" "max t u \<le> hi" using u p by auto
  moreover have "list_all2 (\<lambda>p r. \<exists>s. p = Settles s r \<and> s \<le> max t u) (p # ps) (r # rs)"
    using la' p by simp
  ultimately show ?case by blast
qed

section \<open>The batches of getAccounts\<close>

lemma slice_concat_drop: "slice accs i (i + m) @ drop (i + m) accs = drop i accs"
  unfolding slice_def
  by (metis add.commute add_diff_cancel_left' append_take_drop_id drop_drop)

lemma accountBatches_loop_concat:
  "concat (accountBatches_loop accs i acc) = concat acc @ drop i accs"
proof (induction accs i acc rule: accountBatches_loop.induct)
  case (1 accs i acc)
  show ?case
  proof (cases "i < length accs")
    case True
    then have "concat (accountBatches_loop accs i acc)
        = concat (acc @ [slice accs i (i + MAX_CONCURRENT)]) @ drop (i + MAX_CONCURRENT) accs"
      using 1 by (subst accountBatches_loop.simps) simp
    then show ?thesis by (simp add: slice_concat_drop)
  next
    case False
    then show ?thesis by (subst accountBatches_loop.simps) simp
  qed
qed

lemma accountBatches_loop_eq:
  "accountBatches_loop accs i acc =
     acc @ map (\<lambda>j. slice accs (i + 2 * j) (i + 2 * j + 2)) [0..<(length accs - i + 1) div 2]"
proof (induction accs i acc rule: accountBatches_loop.induct)
  case (1 accs i acc)
  show ?case
  proof (cases "i < length accs")
    case True
    let ?n = "(length accs - (i + 2) + 1) div 2"
    have cnt: "(length accs - i + 1) div 2 = Suc ?n" using True by presburger
    have "accountBatches_loop accs i acc =
        (acc @ [slice accs i (i + 2)]) @
          map (\<lambda>j. slice accs (i + 2 + 2 * j) (i + 2 + 2 * j + 2)) [0..<?n]"
      using 1 True by (subst accountBatches_loop.simps) (simp add: MAX_CONCURRENT_def)
    also have "\<dots> = acc @ map (\<lambda>j. slice accs (i + 2 * j) (i + 2 * j + 2)) [0..<Suc ?n]"
      by (simp add: map_upt_Suc del: upt_Suc)
    finally show ?thesis by (simp only: cnt)
  next
    case False
    then show ?thesis by (subst accountBatches_loop.simps) simp
  qed
qed

lemma accountBatches_length:
  "length (accountBatches_loop accs 0 []) = (length accs + 1) div 2"
  by (simp add: accountBatches_loop_eq)

lemma accountBatches_nth:
  assumes "j < (length accs + 1) div 2"
  shows "accountBatches_loop accs 0 [] ! j = slice accs (2 * j) (2 * j + 2)"
  using assms by (simp add: accountBatches_loop_eq)

lemma accountBatches_sizes:
  assumes "j < length (accountBatches_loop accs 0 [])"
  shows "0 < length (accountBatches_loop accs 0 [] ! j)"
    and "length (accountBatches_loop accs 0 [] ! j) \<le> MAX_CONCURRENT"
    and "Suc j < length (accountBatches_loop accs 0 []) \<Longrightarrow>
           length (accountBatches_loop accs 0 [] ! j) = MAX_CONCURRENT"
proof -
  have j: "j < (length accs + 1) div 2" using assms by (simp add: accountBatches_length)
  have nth: "accountBatches_loop accs 0 [] ! j = slice accs (2 * j) (2 * j + 2)"
    using j by (rule accountBatches_nth)
  have "2 * j < length accs" using j by presburger
  then show "0 < length (accountBatches_loop accs 0 [] ! j)"
    by (simp add: nth slice_def del: length_greater_0_conv)
  show "length (accountBatches_loop accs 0 [] ! j) \<le> MAX_CONCURRENT"
    by (simp add: nth slice_def MAX_CONCURRENT_def)
  show "length (accountBatches_loop accs 0 [] ! j) = MAX_CONCURRENT"
    if "Suc j < length (accountBatches_loop accs 0 [])"
  proof -
    have "Suc j < (length accs + 1) div 2" using that by (simp add: accountBatches_length)
    then have "2 * j + 2 \<le> length accs" by presburger
    then show ?thesis by (simp add: nth slice_def MAX_CONCURRENT_def)
  qed
qed

lemma batch_items_enumerate_aux:
  "map (\<lambda>(index, a). f (started + index) a) (enumerate m ids) =
   map (\<lambda>(k, a). f k a) (enumerate (started + m) ids)"
  by (induction ids arbitrary: m) auto

lemma batch_items_enumerate:
  "batch_items w session now started ids =
     map (\<lambda>(k, a). account_item w session now k a) (enumerate started ids)"
  using batch_items_enumerate_aux[of "account_item w session now" started 0 ids]
  by (simp add: batch_items_def)

lemma processAccountBatch_settles:
  "\<exists>u rs. processAccountBatch w session now started ids = Settles u (fulfilled rs)
      \<and> now \<le> u \<and> u \<le> now + ACCOUNT_TIMEOUT
      \<and> list_all2 (\<lambda>(k, a) r. \<exists>dd. account_item w session 0 k a = Settles dd r \<and> now + dd \<le> u)
           (enumerate started ids) rs
      \<and> list_all (settles_within now u) (batch_items w session now started ids)"
proof -
  let ?ps = "batch_items w session now started ids"
  have each: "\<exists>dd r. account_item w session now k a = Settles (now + dd) r
      \<and> account_item w session 0 k a = Settles dd r \<and> dd \<le> ACCOUNT_TIMEOUT" for k a
  proof -
    obtain dd r where "account_item w session 0 k a = Settles dd r" "dd \<le> ACCOUNT_TIMEOUT"
      using account_item_settles by blast
    then show ?thesis using account_item_shift[of w session now k a] by simp
  qed
  have "\<forall>p \<in> set ?ps. \<exists>t r. p = Settles t r \<and> t \<le> now + ACCOUNT_TIMEOUT"
  proof
    fix p assume "p \<in> set ?ps"
    then obtain k a where "p = account_item w session now k a"
      by (auto simp: batch_items_enumerate)
    then show "\<exists>t r. p = Settles t r \<and> t \<le> now + ACCOUNT_TIMEOUT"
      using each[of k a] by auto
  qed
  from allSettled_settles[OF this, of now] obtain u rs where
    u: "Promise_allSettled now ?ps = Settles u (fulfilled rs)" "now \<le> u" "u \<le> now + ACCOUNT_TIMEOUT"
    and la: "list_all2 (\<lambda>p r. \<exists>s. p = Settles s r \<and> s \<le> u) ?ps rs"
    by auto
  have la1: "list_all2 (\<lambda>x r. \<exists>s. (case x of (k, a) \<Rightarrow> account_item w session now k a) = Settles s r \<and> s \<le> u)
               (enumerate started ids) rs"
    using la by (simp add: batch_items_enumerate list_all2_map1)
  have la2: "list_all2 (\<lambda>(k, a) r. \<exists>dd. account_item w session 0 k a = Settles dd r \<and> now + dd \<le> u)
           (enumerate started ids) rs"
    using la1
  proof (rule list_all2_mono)
    fix x r
    assume h: "\<exists>s. (case x of (k, a) \<Rightarrow> account_item w session now k a) = Settles s r \<and> s \<le> u"
    obtain k a where x: "x = (k, a)" by (cases x)
    from each[of k a] h x
    show "(case x of (k, a) \<Rightarrow> \<lambda>r. \<exists>dd. account_item w session 0 k a = Settles dd r \<and> now + dd \<le> u) r"
      by auto
  qed
  have within: "list_all (settles_within now u) ?ps"
    unfolding list_all_iff
  proof
    fix p assume pin: "p \<in> set ?ps"
    then obtain k a where p: "p = account_item w session now k a"
      by (auto simp: batch_items_enumerate)
    obtain i where i: "i < length ?ps" "?ps ! i = p" using pin by (auto simp: in_set_conv_nth)
    have "\<exists>s. p = Settles s (rs ! i) \<and> s \<le> u"
      using la i by (auto simp: list_all2_conv_all_nth)
    then show "settles_within now u p" using each[of k a] p by auto
  qed
  show ?thesis
    using u la2 within by (simp add: processAccountBatch_def)
qed

section \<open>The batch loop and the separation of the results\<close>

lemma process_batches_run:
  "\<exists>u st' rs R. process_batches w session now bs st = Settles u (fulfilled st')
     \<and> now \<le> u
     \<and> allResults st' = allResults st @ rs
     \<and> runs st' = runs st @ R
     \<and> list_all2 (\<lambda>(k, a) r. \<exists>dd. account_item w session 0 k a = Settles dd r)
          (enumerate (length (allResults st)) (concat bs)) rs
     \<and> map batch_ids R = bs
     \<and> sequential now R
     \<and> (\<forall>j < length R.
           item_promises (R ! j) =
             batch_items w session (dispatched_at (R ! j))
               (length (allResults st) + length (concat (take j bs))) (batch_ids (R ! j)))"
proof (induction bs arbitrary: now st)
  case Nil
  show ?case by simp
next
  case (Cons batch rest)
  let ?n = "length (allResults st)"
  let ?Q = "\<lambda>(k, a) r. \<exists>dd. account_item w session 0 k a = Settles dd r"
  obtain t batchResults where
    b: "processAccountBatch w session now ?n batch = Settles t (fulfilled batchResults)"
    and t: "now \<le> t"
    and la: "list_all2 (\<lambda>(k, a) r. \<exists>dd. account_item w session 0 k a = Settles dd r \<and> now + dd \<le> t)
           (enumerate ?n batch) batchResults"
    and within: "list_all (settles_within now t) (batch_items w session now ?n batch)"
    using processAccountBatch_settles[of w session now ?n batch] by blast
  have la': "list_all2 ?Q (enumerate ?n batch) batchResults"
    using la by (rule list_all2_mono) auto
  have len: "length batchResults = length batch"
    using la by (auto dest: list_all2_lengthD)
  let ?run = "\<lparr>dispatched_at = now, batch_ids = batch,
                 item_promises = batch_items w session now ?n batch, settled_at = t\<rparr>"
  let ?st = "\<lparr>allResults = allResults st @ batchResults, runs = runs st @ [?run]\<rparr>"
  from Cons.IH[of t ?st] obtain u st' rs R where
    ih: "process_batches w session t rest ?st = Settles u (fulfilled st')" "t \<le> u"
        "allResults st' = allResults ?st @ rs" "runs st' = runs ?st @ R"
        "list_all2 ?Q (enumerate (length (allResults ?st)) (concat rest)) rs"
        "map batch_ids R = rest" "sequential t R"
        "\<forall>j < length R.
           item_promises (R ! j) =
             batch_items w session (dispatched_at (R ! j))
               (length (allResults ?st) + length (concat (take j rest))) (batch_ids (R ! j))"
    by blast
  have step: "process_batches w session now (batch # rest) st = Settles u (fulfilled st')"
    using b ih(1) by simp
  have res: "allResults st' = allResults st @ (batchResults @ rs)"
    using ih(3) by simp
  have rn: "runs st' = runs st @ (?run # R)"
    using ih(4) by simp
  have "list_all2 ?Q (enumerate ?n batch @ enumerate (?n + length batch) (concat rest))
          (batchResults @ rs)"
    using la' ih(5) len by (intro list_all2_appendI) simp_all
  then have all: "list_all2 ?Q (enumerate ?n (concat (batch # rest))) (batchResults @ rs)"
    by (simp add: enumerate_append_eq)
  have ids: "map batch_ids (?run # R) = batch # rest"
    using ih(6) by simp
  have seq: "sequential now (?run # R)"
    using t within ih(7) by simp
  have items: "\<forall>j < length (?run # R).
           item_promises ((?run # R) ! j) =
             batch_items w session (dispatched_at ((?run # R) ! j))
               (?n + length (concat (take j (batch # rest)))) (batch_ids ((?run # R) ! j))"
  proof (intro allI impI)
    fix j assume j: "j < length (?run # R)"
    show "item_promises ((?run # R) ! j) =
             batch_items w session (dispatched_at ((?run # R) ! j))
               (?n + length (concat (take j (batch # rest)))) (batch_ids ((?run # R) ! j))"
    proof (cases j)
      case 0
      then show ?thesis by simp
    next
      case (Suc j')
      then have "j' < length R" using j by simp
      then show ?thesis using ih(8) Suc len by (simp add: add.assoc)
    qed
  qed
  have nu: "now \<le> u" using t ih(2) by simp
  show ?case
    by (rule exI[of _ u], rule exI[of _ st'], rule exI[of _ "batchResults @ rs"],
        rule exI[of _ "?run # R"])
       (intro conjI step res rn all ids seq items nu)
qed

lemma separate_eq:
  "separate accs i rs (S, F) =
     (S @ fulfilled_values rs,
      F @ map (\<lambda>(j, r). js_index accs j) (filter (\<lambda>(j, r). is_rejected r) (enumerate i rs)))"
proof (induction rs arbitrary: i S F)
  case Nil
  show ?case by simp
next
  case (Cons r rs)
  show ?case by (cases r) (simp_all add: Cons.IH)
qed

lemma getAccountBalance_cases:
  fixes w :: "('d, 'n::linorder) world"
  shows "(balances_reply w k a = Never \<and> getAccountBalance w k a = Never)
       \<or> (\<exists>d e. balances_reply w k a = Settles d (rejected e)
                \<and> getAccountBalance w k a = Settles d (rejected e))
       \<or> (\<exists>d r b. balances_reply w k a = Settles d (fulfilled r)
                \<and> highestBalance (parseFloat w) r = Inr b
                \<and> getAccountBalance w k a = Settles d (fulfilled b))"
proof (cases "balances_reply w k a")
  case Never
  then show ?thesis by (simp add: getAccountBalance_def)
next
  case (Settles d r)
  show ?thesis
  proof (cases r)
    case (fulfilled resp)
    obtain b where "highestBalance (parseFloat w) resp = Inr b"
      using highestBalance_total by blast
    then show ?thesis using Settles fulfilled by (simp add: getAccountBalance_def)
  next
    case (rejected e)
    then show ?thesis using Settles by (simp add: getAccountBalance_def)
  qed
qed

lemma accountPromise_cases:
  fixes w :: "('d, 'n::linorder) world"
  shows "(case details_reply w k a of
            Settles d1 (fulfilled v1) \<Rightarrow>
              (case balances_reply w k a of
                 Settles d2 (fulfilled r2) \<Rightarrow>
                   \<exists>v. accountPromise w session 0 k a = Settles (max d1 d2) (fulfilled v)
               | Settles d2 (rejected e) \<Rightarrow> \<exists>t e'. accountPromise w session 0 k a = Settles t (rejected e')
               | Never \<Rightarrow> accountPromise w session 0 k a = Never)
          | Settles d1 (rejected e) \<Rightarrow> \<exists>t e'. accountPromise w session 0 k a = Settles t (rejected e')
          | Never \<Rightarrow>
              (case balances_reply w k a of
                 Settles d2 (rejected e) \<Rightarrow> \<exists>t e'. accountPromise w session 0 k a = Settles t (rejected e')
               | _ \<Rightarrow> accountPromise w session 0 k a = Never))"
proof -
  consider (bn) "balances_reply w k a = Never" "getAccountBalance w k a = Never"
    | (br) d e where "balances_reply w k a = Settles d (rejected e)"
        "getAccountBalance w k a = Settles d (rejected e)"
    | (bf) d r b where "balances_reply w k a = Settles d (fulfilled r)"
        "highestBalance (parseFloat w) r = Inr b"
        "getAccountBalance w k a = Settles d (fulfilled b)"
    using getAccountBalance_cases[of w k a] by blast
  then show ?thesis
  proof cases
    case bn
    then show ?thesis
      by (auto simp: accountPromise_def getAccountDetails_def split: promise.splits settled.splits)
  next
    case br
    then show ?thesis
      by (auto simp: accountPromise_def getAccountDetails_def split: promise.splits settled.splits)
  next
    case bf
    then show ?thesis
      by (auto simp: accountPromise_def getAccountDetails_def split: promise.splits settled.splits)
  qed
qed

lemma account_item_outcome:
  fixes w :: "('d, 'n::linorder) world"
  assumes "account_item w session 0 k a = Settles dd r"
  shows "is_rejected r \<longleftrightarrow> \<not> fetch_succeeds w k a"
  using assms accountPromise_cases[where w=w and k=k and a=a and session=session]
  by (auto simp: account_item_def fetch_succeeds_def timeoutPromise_def in_time_def
      split: promise.splits settled.splits if_splits)

lemma failed_ids_eq:
  fixes w :: "('d, 'n::linorder) world"
  assumes "list_all2 (\<lambda>(k, a) r. \<exists>dd. account_item w session 0 k a = Settles dd r)
             (enumerate (length pre) suf) rs"
  shows "map (\<lambda>(j, r). js_index (pre @ suf) j) (filter (\<lambda>(j, r). is_rejected r) (enumerate (length pre) rs))
       = map (\<lambda>(k, a). Some a) (filter (\<lambda>(k, a). \<not> fetch_succeeds w k a) (enumerate (length pre) suf))"
  using assms
proof (induction suf arbitrary: pre rs)
  case Nil
  then show ?case by simp
next
  case (Cons a suf)
  then obtain r rs' where rs: "rs = r # rs'"
    and hd: "\<exists>dd. account_item w session 0 (length pre) a = Settles dd r"
    and tl: "list_all2 (\<lambda>(k, a) r. \<exists>dd. account_item w session 0 k a = Settles dd r)
             (enumerate (Suc (length pre)) suf) rs'"
    by (auto simp: list_all2_Cons1)
  have rej: "is_rejected r \<longleftrightarrow> \<not> fetch_succeeds w (length pre) a"
    using hd account_item_outcome by blast
  have idx: "js_index (pre @ a # suf) (length pre) = Some a"
    by (simp add: js_index_def)
  have "map (\<lambda>(j, r). js_index ((pre @ [a]) @ suf) j)
          (filter (\<lambda>(j, r). is_rejected r) (enumerate (length (pre @ [a])) rs'))
      = map (\<lambda>(k, a). Some a)
          (filter (\<lambda>(k, a). \<not> fetch_succeeds w k a) (enumerate (length (pre @ [a])) suf))"
    using tl by (intro Cons.IH) simp
  then show ?case using rej idx by (simp add: rs)
qed

lemma fulfilled_values_related:
  fixes w :: "('d, 'n::linorder) world"
  assumes "list_all2 (\<lambda>(k, a) r. \<exists>dd. account_item w session 0 k a = Settles dd r) xs rs"
  shows "list_all2 (\<lambda>(k, a) v. \<exists>dd. account_item w session 0 k a = Settles dd (fulfilled v))
           (filter (\<lambda>(k, a). fetch_succeeds w k a) xs) (fulfilled_values rs)"
  using assms
proof (induction xs rs rule: list_all2_induct)
  case Nil
  show ?case by simp
next
  case (Cons x xs r rs)
  obtain k a where x: "x = (k, a)" by (cases x)
  obtain dd where dd: "account_item w session 0 k a = Settles dd r" using Cons(1) x by auto
  have rej: "is_rejected r \<longleftrightarrow> \<not> fetch_succeeds w k a"
    using dd by (rule account_item_outcome)
  show ?case using Cons.IH rej dd x by (cases r) auto
qed

lemma getAccounts_run:
  fixes w :: "('d, 'n::linorder) world"
  assumes session: "session_reply w sid = Settles d (fulfilled session)"
  shows "\<exists>u. now + d \<le> u
     \<and> list_all2 (\<lambda>(k, a) r. \<exists>dd. account_item w session 0 k a = Settles dd r)
          (enumerate 0 (accounts session)) (settled_results (getAccounts w now sid))
     \<and> reported_failed (getAccounts w now sid) = map (\<lambda>(k, a). Some a) (failed_fetches w (accounts session))
     \<and> returned (getAccounts w now sid) =
          (if fulfilled_values (settled_results (getAccounts w now sid)) = []
           then Settles u (rejected (Error (''All accounts failed to process for session '' @ sid)))
           else Settles u (fulfilled (fulfilled_values (settled_results (getAccounts w now sid)))))
     \<and> map batch_ids (batch_runs (getAccounts w now sid)) = accountBatches_loop (accounts session) 0 []
     \<and> sequential (now + d) (batch_runs (getAccounts w now sid))
     \<and> (\<forall>j < length (batch_runs (getAccounts w now sid)).
           item_promises (batch_runs (getAccounts w now sid) ! j) =
             batch_items w session (dispatched_at (batch_runs (getAccounts w now sid) ! j))
               (length (concat (take j (accountBatches_loop (accounts session) 0 []))))
               (batch_ids (batch_runs (getAccounts w now sid) ! j)))"
proof -
  let ?bs = "accountBatches_loop (accounts session) 0 []"
  let ?st0 = "\<lparr>allResults = [], runs = []\<rparr> :: 'd GetAccountDetailsResponse loop_state"
  have cc: "concat ?bs = accounts session"
    by (simp add: accountBatches_loop_concat)
  obtain u st' where
    pb: "process_batches w session (now + d) ?bs ?st0 = Settles u (fulfilled st')"
    and u: "now + d \<le> u"
    and la: "list_all2 (\<lambda>(k, a) r. \<exists>dd. account_item w session 0 k a = Settles dd r)
          (enumerate 0 (accounts session)) (allResults st')"
    and ids: "map batch_ids (runs st') = ?bs"
    and seq: "sequential (now + d) (runs st')"
    and items: "\<forall>j < length (runs st').
           item_promises (runs st' ! j) =
             batch_items w session (dispatched_at (runs st' ! j))
               (length (concat (take j ?bs))) (batch_ids (runs st' ! j))"
    using process_batches_run[of w session "now + d" ?bs ?st0] cc by auto
  let ?F = "map (\<lambda>(j, r). js_index (accounts session) j)
              (filter (\<lambda>(j, r). is_rejected r) (enumerate 0 (allResults st')))"
  have sep: "separate (accounts session) 0 (allResults st') ([], []) =
      (fulfilled_values (allResults st'), ?F)"
    by (simp add: separate_eq)
  have F: "?F = map (\<lambda>(k, a). Some a) (failed_fetches w (accounts session))"
    using failed_ids_eq[of w session "[]" "accounts session" "allResults st'"] la
    by (simp add: failed_fetches_def)
  have run: "getAccounts w now sid =
     \<lparr>returned =
        (if length (fulfilled_values (allResults st')) = 0
         then Settles u (rejected (Error (''All accounts failed to process for session '' @ sid)))
         else Settles u (fulfilled (fulfilled_values (allResults st')))),
      reported_failed = ?F, settled_results = allResults st', batch_runs = runs st'\<rparr>"
    by (simp add: getAccounts_def session pb sep Let_def)
  show ?thesis
    by (rule exI[of _ u]) (simp add: run u la F ids seq items)
qed

section \<open>The per-account timeout\<close>

lemma batch_items_nth:
  assumes "j < length ids"
  shows "batch_items w session now started ids ! j = account_item w session now (started + j) (ids ! j)"
  using assms by (simp add: batch_items_enumerate nth_enumerate_eq)

lemma batch_items_length: "length (batch_items w session now started ids) = length ids"
  by (simp add: batch_items_def)

lemma account_item_slow:
  assumes "accountPromise w session now k a = Never
         \<or> (\<exists>u r. accountPromise w session now k a = Settles u r \<and> now + ACCOUNT_TIMEOUT < u)"
  shows "account_item w session now k a =
           Settles (now + ACCOUNT_TIMEOUT) (rejected (Error (''Timeout processing account '' @ a)))"
  using assms by (auto simp: account_item_def timeoutPromise_def)

lemma account_item_fast:
  assumes "accountPromise w session now k a = Settles u r" and "u < now + ACCOUNT_TIMEOUT"
  shows "account_item w session now k a = Settles u r"
  using assms by (auto simp: account_item_def timeoutPromise_def)

lemma account_item_bounds:
  "\<exists>t r. account_item w session now k a = Settles t r \<and> now \<le> t \<and> t \<le> now + ACCOUNT_TIMEOUT"
proof -
  obtain dd r where "account_item w session 0 k a = Settles dd r" "dd \<le> ACCOUNT_TIMEOUT"
    using account_item_settles by blast
  then show ?thesis using account_item_shift[of w session now k a] by simp
qed

lemma processAccountBatch_single:
  assumes "account_item w session now k a = Settles t r"
  shows "processAccountBatch w session now k [a] = Settles t (fulfilled [r])"
proof -
  have "now \<le> t" using account_item_bounds[of w session now k a] assms by auto
  then show ?thesis
    using assms by (simp add: processAccountBatch_def batch_items_def max_def)
qed

lemma processAccountBatch_items:
  "\<exists>u rs. processAccountBatch w session now started ids = Settles u (fulfilled rs)
      \<and> now \<le> u \<and> u \<le> now + ACCOUNT_TIMEOUT \<and> length rs = length ids
      \<and> (\<forall>j < length ids. \<exists>tj. tj \<le> u
             \<and> account_item w session now (started + j) (ids ! j) = Settles tj (rs ! j))"
proof -
  let ?ps = "batch_items w session now started ids"
  have "\<forall>p \<in> set ?ps. \<exists>t r. p = Settles t r \<and> t \<le> now + ACCOUNT_TIMEOUT"
  proof
    fix p assume "p \<in> set ?ps"
    then obtain j where "j < length ids" "p = ?ps ! j"
      by (auto simp: in_set_conv_nth batch_items_length)
    then show "\<exists>t r. p = Settles t r \<and> t \<le> now + ACCOUNT_TIMEOUT"
      using account_item_bounds[of w session now "started + j" "ids ! j"]
      by (auto simp: batch_items_nth)
  qed
  from allSettled_settles[OF this, of now] obtain u rs where
    u: "Promise_allSettled now ?ps = Settles u (fulfilled rs)" "now \<le> u" "u \<le> now + ACCOUNT_TIMEOUT"
    and la: "list_all2 (\<lambda>p r. \<exists>s. p = Settles s r \<and> s \<le> u) ?ps rs"
    by auto
  have len: "length rs = length ids"
    using la by (auto dest: list_all2_lengthD simp: batch_items_length)
  have each: "\<forall>j < length ids. \<exists>tj. tj \<le> u
             \<and> account_item w session now (started + j) (ids ! j) = Settles tj (rs ! j)"
  proof (intro allI impI)
    fix j assume j: "j < length ids"
    then have "\<exists>s. ?ps ! j = Settles s (rs ! j) \<and> s \<le> u"
      using la by (auto simp: list_all2_conv_all_nth batch_items_length)
    then show "\<exists>tj. tj \<le> u
             \<and> account_item w session now (started + j) (ids ! j) = Settles tj (rs ! j)"
      using j by (auto simp: batch_items_nth)
  qed
  show ?thesis using u len each by (simp add: processAccountBatch_def)
qed

text \<open>
  Claim C4. In a batch, an item whose details-plus-balance work has not completed when
  the 8-second timer fires settles as the failure \<open>Timeout processing account <id>\<close>,
  tagged with its own account id. Every item of the batch settles to the outcome it has
  when processed alone, at its own instant: a sibling that completes within its timeout
  keeps its own result and its own settle time.
\<close>

theorem processAccountBatch_timeout_isolated:
  fixes w :: "('d, 'n::linorder) world"
  assumes i: "i < length accountIds"
    and slow: "accountPromise w session now (started + i) (accountIds ! i) = Never
         \<or> (\<exists>u r. accountPromise w session now (started + i) (accountIds ! i) = Settles u r
                  \<and> now + ACCOUNT_TIMEOUT < u)"
  shows "ACCOUNT_TIMEOUT = 8000
      \<and> (\<exists>rs. processAccountBatch w session now started accountIds
                 = Settles (now + ACCOUNT_TIMEOUT) (fulfilled rs)
      \<and> length rs = length accountIds
      \<and> rs ! i = rejected (Error (''Timeout processing account '' @ accountIds ! i))
      \<and> (\<forall>j < length accountIds. \<exists>tj. tj \<le> now + ACCOUNT_TIMEOUT
            \<and> batch_items w session now started accountIds ! j = Settles tj (rs ! j)
            \<and> processAccountBatch w session now (started + j) [accountIds ! j]
                 = Settles tj (fulfilled [rs ! j]))
      \<and> (\<forall>j < length accountIds. \<forall>u r.
            accountPromise w session now (started + j) (accountIds ! j) = Settles u r
              \<and> u < now + ACCOUNT_TIMEOUT
            \<longrightarrow> batch_items w session now started accountIds ! j = Settles u r \<and> rs ! j = r))"
proof -
  obtain u rs where
    pb: "processAccountBatch w session now started accountIds = Settles u (fulfilled rs)"
    and u: "u \<le> now + ACCOUNT_TIMEOUT" and len: "length rs = length accountIds"
    and each: "\<forall>j < length accountIds. \<exists>tj. tj \<le> u
             \<and> account_item w session now (started + j) (accountIds ! j) = Settles tj (rs ! j)"
    using processAccountBatch_items[of w session now started accountIds] by blast
  have slow_item: "account_item w session now (started + i) (accountIds ! i) =
      Settles (now + ACCOUNT_TIMEOUT) (rejected (Error (''Timeout processing account '' @ accountIds ! i)))"
    using slow by (rule account_item_slow)
  from each i obtain ti where ti: "ti \<le> u"
    "account_item w session now (started + i) (accountIds ! i) = Settles ti (rs ! i)" by blast
  have ueq: "u = now + ACCOUNT_TIMEOUT" and ri: "rs ! i = rejected (Error (''Timeout processing account '' @ accountIds ! i))"
    using ti slow_item u by auto
  have sib: "\<forall>j < length accountIds. \<exists>tj. tj \<le> now + ACCOUNT_TIMEOUT
            \<and> batch_items w session now started accountIds ! j = Settles tj (rs ! j)
            \<and> processAccountBatch w session now (started + j) [accountIds ! j]
                 = Settles tj (fulfilled [rs ! j])"
  proof (intro allI impI)
    fix j assume j: "j < length accountIds"
    with each obtain tj where tj: "tj \<le> u"
      "account_item w session now (started + j) (accountIds ! j) = Settles tj (rs ! j)" by blast
    show "\<exists>tj. tj \<le> now + ACCOUNT_TIMEOUT
            \<and> batch_items w session now started accountIds ! j = Settles tj (rs ! j)
            \<and> processAccountBatch w session now (started + j) [accountIds ! j]
                 = Settles tj (fulfilled [rs ! j])"
      using tj u j processAccountBatch_single[OF tj(2)]
      by (intro exI[of _ tj]) (simp add: batch_items_nth)
  qed
  have fast: "\<forall>j < length accountIds. \<forall>u r.
            accountPromise w session now (started + j) (accountIds ! j) = Settles u r
              \<and> u < now + ACCOUNT_TIMEOUT
            \<longrightarrow> batch_items w session now started accountIds ! j = Settles u r \<and> rs ! j = r"
  proof (intro allI impI)
    fix j u' r
    assume j: "j < length accountIds"
      and h: "accountPromise w session now (started + j) (accountIds ! j) = Settles u' r
              \<and> u' < now + ACCOUNT_TIMEOUT"
    then have ai: "account_item w session now (started + j) (accountIds ! j) = Settles u' r"
      using account_item_fast by blast
    from each j obtain tj where
      "account_item w session now (started + j) (accountIds ! j) = Settles tj (rs ! j)" by blast
    with ai show "batch_items w session now started accountIds ! j = Settles u' r \<and> rs ! j = r"
      using j by (simp add: batch_items_nth)
  qed
  have "ACCOUNT_TIMEOUT = 8000" by (simp add: ACCOUNT_TIMEOUT_def)
  then show ?thesis
    using pb ueq len ri sib fast by blast
qed

theorem processAccountBatch_timeout_isolated_witness:
  "(1::nat) < length [''a4'', ''a5'']
   \<and> accountPromise example_world example_session 1000 (3 + 1) ([''a4'', ''a5''] ! 1) = Never
   \<and> processAccountBatch example_world example_session 1000 3 [''a4'', ''a5'']
        = Settles 9000 (fulfilled
            [fulfilled \<lparr>details = ''details of a4'',
                        institution = \<lparr>aspsp_name = ''Nordea'', aspsp_country = ''SE''\<rparr>,
                        account_valid_until = ''2026-12-31T00:00:00Z'',
                        balance = Some \<lparr>balance_amount = \<lparr>amount = ''250'', currency = ''EUR''\<rparr>,
                                         balance_type = ''ITAV''\<rparr>\<rparr>,
             rejected (Error ''Timeout processing account a5'')])
   \<and> batch_items example_world example_session 1000 3 [''a4'', ''a5'']
        = [Settles 1200 (fulfilled \<lparr>details = ''details of a4'',
                        institution = \<lparr>aspsp_name = ''Nordea'', aspsp_country = ''SE''\<rparr>,
                        account_valid_until = ''2026-12-31T00:00:00Z'',
                        balance = Some \<lparr>balance_amount = \<lparr>amount = ''250'', currency = ''EUR''\<rparr>,
                                         balance_type = ''ITAV''\<rparr>\<rparr>),
           Settles 9000 (rejected (Error ''Timeout processing account a5''))]"
proof -
  have i: "(1::nat) < length [''a4'', ''a5'']" by simp
  have slow: "accountPromise example_world example_session 1000 (3 + 1) ([''a4'', ''a5''] ! 1) = Never"
    by (simp add: eval_defs)
  have items: "batch_items example_world example_session 1000 3 [''a4'', ''a5'']
        = [Settles 1200 (fulfilled \<lparr>details = ''details of a4'',
                        institution = \<lparr>aspsp_name = ''Nordea'', aspsp_country = ''SE''\<rparr>,
                        account_valid_until = ''2026-12-31T00:00:00Z'',
                        balance = Some \<lparr>balance_amount = \<lparr>amount = ''250'', currency = ''EUR''\<rparr>,
                                         balance_type = ''ITAV''\<rparr>\<rparr>),
           Settles 9000 (rejected (Error ''Timeout processing account a5''))]"
    by (simp add: eval_defs)
  from processAccountBatch_timeout_isolated[OF i disjI1[OF slow]]
  obtain rs where
    pb: "processAccountBatch example_world example_session 1000 3 [''a4'', ''a5'']
                 = Settles (1000 + ACCOUNT_TIMEOUT) (fulfilled rs)"
    and len: "length rs = length [''a4'', ''a5'']"
    and each: "\<forall>j < length [''a4'', ''a5'']. \<exists>tj. tj \<le> 1000 + ACCOUNT_TIMEOUT
            \<and> batch_items example_world example_session 1000 3 [''a4'', ''a5''] ! j = Settles tj (rs ! j)
            \<and> processAccountBatch example_world example_session 1000 (3 + j) [[''a4'', ''a5''] ! j]
                 = Settles tj (fulfilled [rs ! j])"
    by blast
  have r0: "rs ! 0 = fulfilled \<lparr>details = ''details of a4'',
                        institution = \<lparr>aspsp_name = ''Nordea'', aspsp_country = ''SE''\<rparr>,
                        account_valid_until = ''2026-12-31T00:00:00Z'',
                        balance = Some \<lparr>balance_amount = \<lparr>amount = ''250'', currency = ''EUR''\<rparr>,
                                         balance_type = ''ITAV''\<rparr>\<rparr>"
    using each[rule_format, of 0] by (simp add: items)
  have r1: "rs ! 1 = rejected (Error ''Timeout processing account a5'')"
    using each[rule_format, of 1] by (simp add: items)
  have "rs = [rs ! 0, rs ! 1]"
    using len by (cases rs; cases "tl rs") auto
  then have rs: "rs = [fulfilled \<lparr>details = ''details of a4'',
                        institution = \<lparr>aspsp_name = ''Nordea'', aspsp_country = ''SE''\<rparr>,
                        account_valid_until = ''2026-12-31T00:00:00Z'',
                        balance = Some \<lparr>balance_amount = \<lparr>amount = ''250'', currency = ''EUR''\<rparr>,
                                         balance_type = ''ITAV''\<rparr>\<rparr>,
             rejected (Error ''Timeout processing account a5'')]"
    using r0 r1 by simp
  show ?thesis
    using i slow items pb rs by (simp add: ACCOUNT_TIMEOUT_def)
qed

section \<open>Partial failure and the aggregate error\<close>

lemma account_item_record:
  fixes w :: "('d, 'n::linorder) world"
  assumes "account_item w session 0 k a = Settles dd (fulfilled v)"
  shows "is_account_record w session k a v"
proof -
  have ap: "\<exists>t. accountPromise w session 0 k a = Settles t (fulfilled v)"
    using assms
    by (cases "accountPromise w session 0 k a")
       (auto simp: account_item_def timeoutPromise_def split: if_splits)
  consider (bn) "balances_reply w k a = Never" "getAccountBalance w k a = Never"
    | (br) d e where "balances_reply w k a = Settles d (rejected e)"
        "getAccountBalance w k a = Settles d (rejected e)"
    | (bf) d r b where "balances_reply w k a = Settles d (fulfilled r)"
        "highestBalance (parseFloat w) r = Inr b"
        "getAccountBalance w k a = Settles d (fulfilled b)"
    using getAccountBalance_cases[of w k a] by blast
  then show ?thesis
  proof cases
    case bn
    then show ?thesis using ap
      by (cases "details_reply w k a" rule: then_promise.cases[of "(_, undefined)"])
         (auto simp: accountPromise_def getAccountDetails_def)
  next
    case br
    then show ?thesis using ap
      by (cases "details_reply w k a" rule: then_promise.cases[of "(_, undefined)"])
         (auto simp: accountPromise_def getAccountDetails_def split: if_splits)
  next
    case bf
    then show ?thesis using ap
      by (cases "details_reply w k a" rule: then_promise.cases[of "(_, undefined)"])
         (auto simp: accountPromise_def getAccountDetails_def is_account_record_def)
  qed
qed

lemma length_fetches:
  "length (successful_fetches w ids) + length (failed_fetches w ids) = length ids"
  using sum_length_filter_compl[of "\<lambda>(k, a). fetch_succeeds w k a" "enumerate 0 ids"]
  by (simp add: successful_fetches_def failed_fetches_def case_prod_unfold)

lemma getAccounts_successes:
  fixes w :: "('d, 'n::linorder) world"
  assumes session: "session_reply w sid = Settles d (fulfilled session)"
  shows "list_all2 (\<lambda>(k, a) v. is_account_record w session k a v)
           (successful_fetches w (accounts session))
           (fulfilled_values (settled_results (getAccounts w now sid)))"
proof -
  have "list_all2 (\<lambda>(k, a) r. \<exists>dd. account_item w session 0 k a = Settles dd r)
          (enumerate 0 (accounts session)) (settled_results (getAccounts w now sid))"
    using getAccounts_run[OF session, of now] by blast
  then have "list_all2 (\<lambda>(k, a) v. \<exists>dd. account_item w session 0 k a = Settles dd (fulfilled v))
           (successful_fetches w (accounts session))
           (fulfilled_values (settled_results (getAccounts w now sid)))"
    unfolding successful_fetches_def by (rule fulfilled_values_related)
  then show ?thesis
    by (rule list_all2_mono) (auto intro: account_item_record)
qed

text \<open>
  Claim C1. When the session holds N account ids and the fetches of a strict subset S
  of them fail, \<open>getAccounts\<close> does not throw: it fulfils with exactly the N - |S|
  account records of the accounts whose fetch succeeded, in order, and reports the |S|
  failed account ids.
\<close>

theorem getAccounts_partial_failure:
  fixes w :: "('d, 'n::linorder) world"
  assumes session: "session_reply w sid = Settles d (fulfilled session)"
    and strict: "length (failed_fetches w (accounts session)) < length (accounts session)"
  shows "\<exists>u accs. returned (getAccounts w now sid) = Settles u (fulfilled accs)
      \<and> length accs = length (accounts session) - length (failed_fetches w (accounts session))
      \<and> list_all2 (\<lambda>(k, a) v. is_account_record w session k a v)
           (successful_fetches w (accounts session)) accs
      \<and> reported_failed (getAccounts w now sid)
           = map (\<lambda>(k, a). Some a) (failed_fetches w (accounts session))
      \<and> length (reported_failed (getAccounts w now sid))
           = length (failed_fetches w (accounts session))"
proof -
  let ?run = "getAccounts w now sid"
  let ?accs = "fulfilled_values (settled_results ?run)"
  obtain u where
    ret: "returned ?run =
          (if ?accs = []
           then Settles u (rejected (Error (''All accounts failed to process for session '' @ sid)))
           else Settles u (fulfilled ?accs))"
    and rep: "reported_failed ?run = map (\<lambda>(k, a). Some a) (failed_fetches w (accounts session))"
    using getAccounts_run[OF session, of now] by blast
  have rel: "list_all2 (\<lambda>(k, a) v. is_account_record w session k a v)
           (successful_fetches w (accounts session)) ?accs"
    using session by (rule getAccounts_successes)
  then have "length ?accs = length (successful_fetches w (accounts session))"
    by (auto dest: list_all2_lengthD)
  then have len: "length ?accs = length (accounts session) - length (failed_fetches w (accounts session))"
    using length_fetches[of w "accounts session"] by simp
  then have "?accs \<noteq> []" using strict by auto
  then have "returned ?run = Settles u (fulfilled ?accs)" using ret by simp
  then show ?thesis using len rel rep by auto
qed

lemma ex_session: "session_reply example_world ''sess-1'' = Settles 150 (fulfilled example_session)"
  by (simp add: example_world_def)

lemma ex_failed: "failed_fetches example_world (accounts example_session) = [(4, ''a5'')]"
  by (simp add: eval_defs)

lemma ex_successful: "successful_fetches example_world (accounts example_session)
    = [(0, ''a1''), (1, ''a2''), (2, ''a3''), (3, ''a4'')]"
  by (simp add: eval_defs)

theorem getAccounts_partial_failure_witness:
  "session_reply example_world ''sess-1'' = Settles 150 (fulfilled example_session)
   \<and> length (failed_fetches example_world (accounts example_session))
        < length (accounts example_session)
   \<and> (\<exists>u accs. returned (getAccounts example_world 1000 ''sess-1'') = Settles u (fulfilled accs)
         \<and> length accs = 4
         \<and> reported_failed (getAccounts example_world 1000 ''sess-1'') = [Some ''a5''])"
proof -
  have n: "length (accounts example_session) = 5" by (simp add: example_session_def)
  have strict: "length (failed_fetches example_world (accounts example_session))
        < length (accounts example_session)"
    by (simp add: ex_failed n)
  show ?thesis
    using getAccounts_partial_failure[OF ex_session strict, of 1000] ex_session strict
    by (auto simp: ex_failed n)
qed


text \<open>
  Claim C2, as the code has it. \<open>getAccounts\<close> rejects with the aggregate error
  that names the session exactly when no fetch succeeded, which includes the session
  without accounts (N = 0); in every other case it fulfils with the records of the
  successful fetches.
\<close>

theorem getAccounts_aggregate_error_iff_no_success:
  fixes w :: "('d, 'n::linorder) world"
  assumes session: "session_reply w sid = Settles d (fulfilled session)"
  shows "\<exists>u accs. list_all2 (\<lambda>(k, a) v. is_account_record w session k a v)
                     (successful_fetches w (accounts session)) accs
      \<and> returned (getAccounts w now sid) =
          (if successful_fetches w (accounts session) = []
           then Settles u (rejected (Error (''All accounts failed to process for session '' @ sid)))
           else Settles u (fulfilled accs))"
proof -
  let ?run = "getAccounts w now sid"
  let ?accs = "fulfilled_values (settled_results ?run)"
  obtain u where
    ret: "returned ?run =
          (if ?accs = []
           then Settles u (rejected (Error (''All accounts failed to process for session '' @ sid)))
           else Settles u (fulfilled ?accs))"
    using getAccounts_run[OF session, of now] by blast
  have rel: "list_all2 (\<lambda>(k, a) v. is_account_record w session k a v)
           (successful_fetches w (accounts session)) ?accs"
    using session by (rule getAccounts_successes)
  then have "length ?accs = length (successful_fetches w (accounts session))"
    by (auto dest: list_all2_lengthD)
  then have "?accs = [] \<longleftrightarrow> successful_fetches w (accounts session) = []"
    by (metis length_0_conv)
  then show ?thesis using ret rel by auto
qed

theorem getAccounts_aggregate_error_iff_no_success_witness:
  "session_reply example_world ''sess-1'' = Settles 150 (fulfilled example_session)
   \<and> (\<exists>u accs. returned (getAccounts example_world 1000 ''sess-1'') = Settles u (fulfilled accs)
         \<and> length accs = 4)
   \<and> session_reply empty_world ''sess-0'' = Settles 150 (fulfilled empty_session)
   \<and> (\<exists>u. returned (getAccounts empty_world 1000 ''sess-0'')
         = Settles u (rejected (Error ''All accounts failed to process for session sess-0'')))"
proof -
  have e: "session_reply empty_world ''sess-0'' = Settles 150 (fulfilled empty_session)"
    by (simp add: empty_world_def)
  have es: "successful_fetches empty_world (accounts empty_session) = []"
    by (simp add: successful_fetches_def empty_session_def)
  have a: "\<exists>u accs. returned (getAccounts example_world 1000 ''sess-1'') = Settles u (fulfilled accs)
         \<and> length accs = 4"
    using getAccounts_aggregate_error_iff_no_success[OF ex_session, of 1000]
    by (auto simp: ex_successful dest!: list_all2_lengthD)
  have b: "\<exists>u. returned (getAccounts empty_world 1000 ''sess-0'')
         = Settles u (rejected (Error ''All accounts failed to process for session sess-0''))"
    using getAccounts_aggregate_error_iff_no_success[OF e, of 1000]
    by (auto simp: es)
  show ?thesis using ex_session e a b by blast
qed


text \<open>
  The claim C2 as stated says that a fetch over N = 0 account ids returns the (empty)
  collection of successes. For the session without accounts the code rejects with the
  aggregate error.
\<close>

theorem getAccounts_no_accounts_counterexample:
  "session_reply empty_world ''sess-0'' = Settles 150 (fulfilled empty_session)
   \<and> length (accounts empty_session) = 0
   \<and> returned (getAccounts empty_world 1000 ''sess-0'')
        = Settles 1150 (rejected (Error ''All accounts failed to process for session sess-0''))
   \<and> returned (getAccounts empty_world 1000 ''sess-0'') \<noteq> Settles 1150 (fulfilled [])"
  by (simp add: eval_defs)


text \<open>
  Claim C9. The settled results of \<open>getAccounts\<close> follow the order of the session's
  account list: the i-th result is the outcome of the work item of the i-th account id,
  it is a rejection exactly when the fetch of that account failed, and the failed-id
  report lists exactly the ids of the accounts whose own fetch failed.
\<close>

theorem getAccounts_results_in_order:
  fixes w :: "('d, 'n::linorder) world"
  assumes session: "session_reply w sid = Settles d (fulfilled session)"
  shows "length (settled_results (getAccounts w now sid)) = length (accounts session)
      \<and> (\<forall>i < length (accounts session).
            (\<exists>dd. account_item w session 0 i (accounts session ! i)
                    = Settles dd (settled_results (getAccounts w now sid) ! i))
            \<and> (is_rejected (settled_results (getAccounts w now sid) ! i)
                 \<longleftrightarrow> \<not> fetch_succeeds w i (accounts session ! i)))
      \<and> reported_failed (getAccounts w now sid)
           = map (\<lambda>(k, a). Some a)
               (filter (\<lambda>(k, a). \<not> fetch_succeeds w k a) (enumerate 0 (accounts session)))"
proof -
  let ?rs = "settled_results (getAccounts w now sid)"
  have la: "list_all2 (\<lambda>(k, a) r. \<exists>dd. account_item w session 0 k a = Settles dd r)
          (enumerate 0 (accounts session)) ?rs"
    and rep: "reported_failed (getAccounts w now sid)
           = map (\<lambda>(k, a). Some a) (failed_fetches w (accounts session))"
    using getAccounts_run[OF session, of now] by blast+
  have len: "length ?rs = length (accounts session)"
    using la by (auto dest: list_all2_lengthD)
  have each: "\<forall>i < length (accounts session).
            (\<exists>dd. account_item w session 0 i (accounts session ! i) = Settles dd (?rs ! i))
            \<and> (is_rejected (?rs ! i) \<longleftrightarrow> \<not> fetch_succeeds w i (accounts session ! i))"
  proof (intro allI impI)
    fix i assume i: "i < length (accounts session)"
    then have "\<exists>dd. account_item w session 0 i (accounts session ! i) = Settles dd (?rs ! i)"
      using la by (auto simp: list_all2_conv_all_nth nth_enumerate_eq)
    then show "(\<exists>dd. account_item w session 0 i (accounts session ! i) = Settles dd (?rs ! i))
            \<and> (is_rejected (?rs ! i) \<longleftrightarrow> \<not> fetch_succeeds w i (accounts session ! i))"
      using account_item_outcome by blast
  qed
  show ?thesis using len each rep by (simp add: failed_fetches_def)
qed

theorem getAccounts_results_in_order_witness:
  "session_reply example_world ''sess-1'' = Settles 150 (fulfilled example_session)
   \<and> length (settled_results (getAccounts example_world 1000 ''sess-1'')) = 5
   \<and> is_rejected (settled_results (getAccounts example_world 1000 ''sess-1'') ! 4)
   \<and> \<not> is_rejected (settled_results (getAccounts example_world 1000 ''sess-1'') ! 3)
   \<and> reported_failed (getAccounts example_world 1000 ''sess-1'') = [Some ''a5'']"
proof -
  have f4: "\<not> fetch_succeeds example_world 4 (accounts example_session ! 4)" by (simp add: eval_defs)
  have f3: "fetch_succeeds example_world 3 (accounts example_session ! 3)" by (simp add: eval_defs)
  have n: "length (accounts example_session) = 5" by (simp add: example_session_def)
  have fl: "filter (\<lambda>(k, a). \<not> fetch_succeeds example_world k a) (enumerate 0 (accounts example_session))
      = [(4, ''a5'')]"
    using ex_failed by (simp add: failed_fetches_def)
  show ?thesis
    using getAccounts_results_in_order[OF ex_session, of 1000] ex_session f4 f3 n fl
    by simp
qed


section \<open>Sequential batches\<close>

lemma settles_within_iff:
  "settles_within lo hi p \<longleftrightarrow> (\<exists>t r. p = Settles t r \<and> lo \<le> t \<and> t \<le> hi)"
  by (cases p) auto

lemma sequential_nth:
  assumes "sequential now R" and "j < length R"
  shows "list_all (settles_within (dispatched_at (R ! j)) (settled_at (R ! j))) (item_promises (R ! j))
       \<and> (Suc j < length R \<longrightarrow> dispatched_at (R ! Suc j) = settled_at (R ! j))
       \<and> (j = 0 \<longrightarrow> dispatched_at (R ! j) = now)"
  using assms
proof (induction R arbitrary: now j)
  case Nil
  then show ?case by simp
next
  case (Cons r R)
  show ?case
  proof (cases j)
    case 0
    then show ?thesis using Cons.prems by (cases R) auto
  next
    case (Suc j')
    then have "j' < length R" using Cons.prems by simp
    moreover have "sequential (settled_at r) R" using Cons.prems by simp
    ultimately show ?thesis using Cons.IH[of "settled_at r" j'] Suc by simp
  qed
qed

lemma accountBatches_offset:
  assumes "j < length (accountBatches_loop accs 0 [])"
  shows "length (concat (take j (accountBatches_loop accs 0 []))) = MAX_CONCURRENT * j"
  using assms
proof (induction j)
  case 0
  show ?case by simp
next
  case (Suc j)
  let ?bs = "accountBatches_loop accs 0 []"
  have j: "j < length ?bs" using Suc.prems by simp
  have "length (?bs ! j) = MAX_CONCURRENT"
    using accountBatches_sizes(3)[OF j] Suc.prems by blast
  moreover have "take (Suc j) ?bs = take j ?bs @ [?bs ! j]"
    using j by (simp add: take_Suc_conv_app_nth)
  ultimately show ?case using Suc.IH[OF j] by simp
qed

text \<open>
  Claim C5. \<open>getAccounts\<close> cuts the session's account ids into consecutive batches
  of at most \<open>MAX_CONCURRENT = 2\<close> ids, only the last of which may be smaller; the
  batches concatenated are the account list in its order; and the batches run in
  sequence: every promise of a batch has settled when the next batch is dispatched.
\<close>

theorem getAccounts_batches_sequential:
  fixes w :: "('d, 'n::linorder) world"
  assumes session: "session_reply w sid = Settles d (fulfilled session)"
  shows "MAX_CONCURRENT = 2
    \<and> concat (map batch_ids (batch_runs (getAccounts w now sid))) = accounts session
    \<and> (\<forall>j < length (batch_runs (getAccounts w now sid)).
          0 < length (batch_ids (batch_runs (getAccounts w now sid) ! j))
          \<and> length (batch_ids (batch_runs (getAccounts w now sid) ! j)) \<le> MAX_CONCURRENT
          \<and> (Suc j < length (batch_runs (getAccounts w now sid)) \<longrightarrow>
               length (batch_ids (batch_runs (getAccounts w now sid) ! j)) = MAX_CONCURRENT
               \<and> dispatched_at (batch_runs (getAccounts w now sid) ! Suc j)
                   = settled_at (batch_runs (getAccounts w now sid) ! j))
          \<and> (j = 0 \<longrightarrow> dispatched_at (batch_runs (getAccounts w now sid) ! j) = now + d)
          \<and> item_promises (batch_runs (getAccounts w now sid) ! j)
               = batch_items w session (dispatched_at (batch_runs (getAccounts w now sid) ! j))
                   (MAX_CONCURRENT * j) (batch_ids (batch_runs (getAccounts w now sid) ! j))
          \<and> (\<forall>p \<in> set (item_promises (batch_runs (getAccounts w now sid) ! j)).
                \<exists>t r. p = Settles t r
                  \<and> dispatched_at (batch_runs (getAccounts w now sid) ! j) \<le> t
                  \<and> t \<le> settled_at (batch_runs (getAccounts w now sid) ! j)))"
proof -
  let ?R = "batch_runs (getAccounts w now sid)"
  let ?bs = "accountBatches_loop (accounts session) 0 []"
  have ids: "map batch_ids ?R = ?bs"
    and seq: "sequential (now + d) ?R"
    and items: "\<forall>j < length ?R.
           item_promises (?R ! j) =
             batch_items w session (dispatched_at (?R ! j))
               (length (concat (take j ?bs))) (batch_ids (?R ! j))"
    using getAccounts_run[OF session, of now] by blast+
  have len: "length ?R = length ?bs" using ids by (metis length_map)
  have cc: "concat (map batch_ids ?R) = accounts session"
    by (simp add: ids accountBatches_loop_concat)
  have each: "\<forall>j < length ?R.
          0 < length (batch_ids (?R ! j))
          \<and> length (batch_ids (?R ! j)) \<le> MAX_CONCURRENT
          \<and> (Suc j < length ?R \<longrightarrow>
               length (batch_ids (?R ! j)) = MAX_CONCURRENT
               \<and> dispatched_at (?R ! Suc j) = settled_at (?R ! j))
          \<and> (j = 0 \<longrightarrow> dispatched_at (?R ! j) = now + d)
          \<and> item_promises (?R ! j)
               = batch_items w session (dispatched_at (?R ! j)) (MAX_CONCURRENT * j) (batch_ids (?R ! j))
          \<and> (\<forall>p \<in> set (item_promises (?R ! j)).
                \<exists>t r. p = Settles t r \<and> dispatched_at (?R ! j) \<le> t \<and> t \<le> settled_at (?R ! j))"
  proof (intro allI impI)
    fix j assume j: "j < length ?R"
    have bj: "batch_ids (?R ! j) = ?bs ! j"
      using j ids by (metis nth_map)
    have jb: "j < length ?bs" using j len by simp
    have s1: "0 < length (batch_ids (?R ! j))"
      using accountBatches_sizes(1)[OF jb] by (simp only: bj)
    have s2: "length (batch_ids (?R ! j)) \<le> MAX_CONCURRENT"
      using accountBatches_sizes(2)[OF jb] by (simp only: bj)
    have s3: "Suc j < length ?R \<longrightarrow> length (batch_ids (?R ! j)) = MAX_CONCURRENT"
      using accountBatches_sizes(3)[OF jb] by (simp only: bj len) blast
    have sq: "list_all (settles_within (dispatched_at (?R ! j)) (settled_at (?R ! j))) (item_promises (?R ! j))
       \<and> (Suc j < length ?R \<longrightarrow> dispatched_at (?R ! Suc j) = settled_at (?R ! j))
       \<and> (j = 0 \<longrightarrow> dispatched_at (?R ! j) = now + d)"
      using seq j by (rule sequential_nth)
    have "item_promises (?R ! j) = batch_items w session (dispatched_at (?R ! j))
               (length (concat (take j ?bs))) (batch_ids (?R ! j))"
      using items j by blast
    then have s4: "item_promises (?R ! j)
               = batch_items w session (dispatched_at (?R ! j)) (MAX_CONCURRENT * j) (batch_ids (?R ! j))"
      using accountBatches_offset[OF jb] by simp
    have s5: "\<forall>p \<in> set (item_promises (?R ! j)).
                \<exists>t r. p = Settles t r \<and> dispatched_at (?R ! j) \<le> t \<and> t \<le> settled_at (?R ! j)"
      using sq by (simp add: list_all_iff settles_within_iff)
    show "0 < length (batch_ids (?R ! j))
          \<and> length (batch_ids (?R ! j)) \<le> MAX_CONCURRENT
          \<and> (Suc j < length ?R \<longrightarrow>
               length (batch_ids (?R ! j)) = MAX_CONCURRENT
               \<and> dispatched_at (?R ! Suc j) = settled_at (?R ! j))
          \<and> (j = 0 \<longrightarrow> dispatched_at (?R ! j) = now + d)
          \<and> item_promises (?R ! j)
               = batch_items w session (dispatched_at (?R ! j)) (MAX_CONCURRENT * j) (batch_ids (?R ! j))
          \<and> (\<forall>p \<in> set (item_promises (?R ! j)).
                \<exists>t r. p = Settles t r \<and> dispatched_at (?R ! j) \<le> t \<and> t \<le> settled_at (?R ! j))"
      using s1 s2 s3 s4 s5 sq by blast
  qed
  have "MAX_CONCURRENT = 2" by (simp add: MAX_CONCURRENT_def)
  then show ?thesis using cc each by blast
qed

theorem getAccounts_batches_sequential_witness:
  "session_reply example_world ''sess-1'' = Settles 150 (fulfilled example_session)
   \<and> concat (map batch_ids (batch_runs (getAccounts example_world 1000 ''sess-1'')))
        = [''a1'', ''a2'', ''a3'', ''a4'', ''a5'']
   \<and> map batch_ids (batch_runs (getAccounts example_world 1000 ''sess-1''))
        = [[''a1'', ''a2''], [''a3'', ''a4''], [''a5'']]
   \<and> map dispatched_at (batch_runs (getAccounts example_world 1000 ''sess-1''))
        = [1150, 1350, 1550]
   \<and> map settled_at (batch_runs (getAccounts example_world 1000 ''sess-1''))
        = [1350, 1550, 9550]"
proof -
  have ev: "map batch_ids (batch_runs (getAccounts example_world 1000 ''sess-1''))
        = [[''a1'', ''a2''], [''a3'', ''a4''], [''a5'']]
   \<and> map dispatched_at (batch_runs (getAccounts example_world 1000 ''sess-1''))
        = [1150, 1350, 1550]
   \<and> map settled_at (batch_runs (getAccounts example_world 1000 ''sess-1''))
        = [1350, 1550, 9550]"
    by (simp add: eval_defs)
  have "concat (map batch_ids (batch_runs (getAccounts example_world 1000 ''sess-1'')))
        = accounts example_session"
    using getAccounts_batches_sequential[OF ex_session, of 1000] by blast
  then show ?thesis using ev ex_session by (simp add: example_session_def)
qed


section \<open>The responses of GET /accounts\<close>

text \<open>
  Claim C8. The handler of \<open>GET /accounts\<close> always responds, by the 28-second deadline
  at the latest: with 200 and \<open>{data}\<close> when the fetch fulfils before the deadline,
  with 400 and the error body of \<open>createErrorResponse\<close> when the adapter throws or
  rejects, and with 400 and the error body of the timeout when the fetch is still pending
  after the deadline. A response that carries data carries exactly what the fetch
  fulfilled with.
\<close>

theorem accounts_handler_responses:
  "\<exists>resp. accounts_handler createErrorResponse tf startTime api_getAccounts = Some resp
     \<and> sent_at resp \<le> startTime + TOTAL_TIMEOUT
     \<and> TOTAL_TIMEOUT = 28000
     \<and> (\<forall>t data. api_getAccounts startTime = Inr (Settles t (fulfilled data))
            \<and> t < startTime + TOTAL_TIMEOUT
          \<longrightarrow> resp = \<lparr>status = 200, body = DataBody data, sent_at = t\<rparr>)
     \<and> (\<forall>t e. api_getAccounts startTime = Inr (Settles t (rejected e))
            \<and> t < startTime + TOTAL_TIMEOUT
          \<longrightarrow> resp = \<lparr>status = 400, body = ErrorBody (createErrorResponse e), sent_at = t\<rparr>)
     \<and> (\<forall>e. api_getAccounts startTime = Inl e
          \<longrightarrow> resp = \<lparr>status = 400, body = ErrorBody (createErrorResponse e),
                       sent_at = startTime\<rparr>)
     \<and> (api_getAccounts startTime = Inr Never
          \<or> (\<exists>t r. api_getAccounts startTime = Inr (Settles t r) \<and> startTime + TOTAL_TIMEOUT < t)
          \<longrightarrow> resp = \<lparr>status = 400,
                       body = ErrorBody (createErrorResponse (Error ''Request timeout'')),
                       sent_at = startTime + TOTAL_TIMEOUT\<rparr>)
     \<and> (\<forall>data. body resp = DataBody data
          \<longrightarrow> status resp = 200
              \<and> api_getAccounts startTime = Inr (Settles (sent_at resp) (fulfilled data)))
     \<and> (status resp = 200 \<or> status resp = 400)
     \<and> (status resp = 400 \<longleftrightarrow> (\<exists>e. body resp = ErrorBody (createErrorResponse e)))"
proof (cases "api_getAccounts startTime")
  case (Inl e)
  then show ?thesis by (auto simp: accounts_handler_def TOTAL_TIMEOUT_def)
next
  case (Inr p)
  show ?thesis
  proof (cases p)
    case Never
    then show ?thesis using Inr
      by (auto simp: accounts_handler_def timeoutPromise_def TOTAL_TIMEOUT_def)
  next
    case (Settles t r)
    then show ?thesis using Inr
      by (cases r) (auto simp: accounts_handler_def timeoutPromise_def TOTAL_TIMEOUT_def)
  qed
qed

theorem accounts_handler_responses_witness:
  "accounts_handler example_createErrorResponse True 1000
       (\<lambda>t. Inr (Settles (t + 9550) (fulfilled [''account-1'', ''account-2''])))
     = Some \<lparr>status = 200, body = DataBody [''account-1'', ''account-2''], sent_at = 10550\<rparr>
   \<and> accounts_handler example_createErrorResponse True 1000
       (\<lambda>t. Inr (Settles (t + 30000) (fulfilled [''account-1'', ''account-2''])))
     = Some \<lparr>status = 400,
             body = ErrorBody \<lparr>error_code = ''unknown'', error_message = ''Request timeout''\<rparr>,
             sent_at = 29000\<rparr>
   \<and> accounts_handler example_createErrorResponse True 1000
       (\<lambda>t. Inr (Settles (t + 700) (rejected (UpstreamError ''EXPIRED_SESSION'')))
          :: js_error + string list promise)
     = Some \<lparr>status = 400,
             body = ErrorBody \<lparr>error_code = ''EXPIRED_SESSION'', error_message = ''provider error''\<rparr>,
             sent_at = 1700\<rparr>"
  using accounts_handler_responses[of example_createErrorResponse True 1000
          "\<lambda>t. Inr (Settles (t + 9550) (fulfilled [''account-1'', ''account-2'']))"]
        accounts_handler_responses[of example_createErrorResponse True 1000
          "\<lambda>t. Inr (Settles (t + 30000) (fulfilled [''account-1'', ''account-2'']))"]
        accounts_handler_responses[of example_createErrorResponse True 1000
          "\<lambda>t. Inr (Settles (t + 700) (rejected (UpstreamError ''EXPIRED_SESSION'')))
             :: js_error + string list promise"]
  by (auto simp: TOTAL_TIMEOUT_def example_createErrorResponse_def)

section \<open>Encoding and decoding the signed assertion\<close>

lemma index_of_nth:
  assumes "distinct xs" and "n < length xs"
  shows "index_of (xs ! n) xs = Some n"
  using assms
proof (induction xs arbitrary: n)
  case Nil
  then show ?case by simp
next
  case (Cons y ys)
  show ?case
  proof (cases n)
    case 0
    then show ?thesis by simp
  next
    case (Suc m)
    then have "ys ! m \<in> set ys" using Cons.prems by simp
    then have "ys ! m \<noteq> y" using Cons.prems by auto
    then show ?thesis using Suc Cons by simp
  qed
qed

lemma alphabet_distinct: "distinct base64url_alphabet"
  by (simp add: base64url_alphabet_def)

lemma alphabet_length: "length base64url_alphabet = 64"
  by (simp add: base64url_alphabet_def)

lemma sextet_value_char:
  assumes "n < 64"
  shows "sextet_value (sextet_char n) = Some n"
  using assms index_of_nth[OF alphabet_distinct, of n]
  by (simp add: sextet_value_def sextet_char_def alphabet_length)

lemma sextet_char_in_alphabet:
  assumes "n < 64"
  shows "sextet_char n \<in> set base64url_alphabet"
  using assms by (simp add: sextet_char_def alphabet_length)

lemma alphabet_url_safe:
  "CHR ''.'' \<notin> set base64url_alphabet" "CHR ''='' \<notin> set base64url_alphabet"
  "CHR ''+'' \<notin> set base64url_alphabet" "CHR ''/'' \<notin> set base64url_alphabet"
  by (simp_all add: base64url_alphabet_def)

lemma base64url_encode_alphabet:
  "set (base64url_encode bs) \<subseteq> set base64url_alphabet"
proof (induction bs rule: base64url_encode.induct)
  case (1 a b c rest)
  have "(of_char a :: nat) * 65536 + of_char b * 256 + of_char c < 16777216"
    using nat_of_char_less_256[of a] nat_of_char_less_256[of b] nat_of_char_less_256[of c]
    by linarith
  then have "((of_char a :: nat) * 65536 + of_char b * 256 + of_char c) div 262144 < 64"
    by simp
  then show ?case using 1 by (simp add: Let_def sextet_char_in_alphabet)
next
  case (2 a b)
  have "(of_char a :: nat) * 1024 + of_char b * 4 < 262144"
    using nat_of_char_less_256[of a] nat_of_char_less_256[of b] by linarith
  then have "((of_char a :: nat) * 1024 + of_char b * 4) div 4096 < 64" by simp
  then show ?case by (simp add: Let_def sextet_char_in_alphabet)
next
  case (3 a)
  have "(of_char a :: nat) div 4 < 64" using nat_of_char_less_256[of a] by arith
  then show ?case by (simp add: Let_def sextet_char_in_alphabet)
next
  case 4
  show ?case by simp
qed



lemma sextets_recon:
  "((n div 262144 * 64 + n div 4096 mod 64) * 64 + n div 64 mod 64) * 64 + n mod 64 = (n::nat)"
proof -
  have a: "n div 4096 = n div 64 div 64" by (simp add: div_mult2_eq[symmetric])
  have b: "n div 262144 = n div 64 div 64 div 64" by (simp add: div_mult2_eq[symmetric])
  show ?thesis unfolding a b by (simp only: div_mult_mod_eq)
qed

lemma bytes3:
  assumes "x < 256" "y < 256" "z < (256::nat)"
  shows "(x * 65536 + y * 256 + z) div 65536 = x"
    and "(x * 65536 + y * 256 + z) div 256 mod 256 = y"
    and "(x * 65536 + y * 256 + z) mod 256 = z"
proof -
  have lo: "y * 256 + z < 65536" using assms by linarith
  have "(x * 65536 + (y * 256 + z)) div 65536 = x" using lo by simp
  then show "(x * 65536 + y * 256 + z) div 65536 = x" by (simp add: add.assoc)
  have e: "x * 65536 + y * 256 + z = (x * 256 + y) * 256 + z" by simp
  have d: "((x * 256 + y) * 256 + z) div 256 = x * 256 + y" using assms(3) by simp
  show "(x * 65536 + y * 256 + z) div 256 mod 256 = y"
    unfolding e d using assms(2) by simp
  show "(x * 65536 + y * 256 + z) mod 256 = z"
    unfolding e by (simp only: mod_mult_self3 mod_less[OF assms(3)])
qed

lemma bytes2:
  assumes "x < 256" "y < (256::nat)"
  shows "(x * 1024 + y * 4) div 1024 = x"
    and "(x * 1024 + y * 4) div 4 mod 256 = y"
proof -
  have lo: "y * 4 < 1024" using assms by linarith
  show "(x * 1024 + y * 4) div 1024 = x" using lo by simp
  have e: "x * 1024 + y * 4 = (x * 256 + y) * 4" by simp
  show "(x * 1024 + y * 4) div 4 mod 256 = y"
    unfolding e using assms(2) by simp
qed

lemma sextet_bounds:
  fixes n :: nat
  shows "n div 4096 mod 64 < 64" "n div 64 mod 64 < 64" "n mod 64 < 64"
  by simp_all

lemma base64url_roundtrip: "base64url_decode (base64url_encode bs) = Some bs"
proof (induction bs rule: base64url_encode.induct)
  case (1 a b c rest)
  define n :: nat where "n = of_char a * 65536 + of_char b * 256 + of_char c"
  have bounds: "(of_char a :: nat) < 256" "(of_char b :: nat) < 256" "(of_char c :: nat) < 256"
    by simp_all
  have "n < 16777216" using bounds unfolding n_def by linarith
  then have s1: "n div 262144 < 64" by simp
  have bytes: "n div 65536 = of_char a" "n div 256 mod 256 = of_char b" "n mod 256 = of_char c"
    unfolding n_def using bytes3[OF bounds] by blast+
  have enc: "base64url_encode (a # b # c # rest) =
      sextet_char (n div 262144) # sextet_char (n div 4096 mod 64)
        # sextet_char (n div 64 mod 64) # sextet_char (n mod 64) # base64url_encode rest"
    by (simp add: n_def Let_def)
  have dec: "base64url_decode (sextet_char (n div 262144) # sextet_char (n div 4096 mod 64)
        # sextet_char (n div 64 mod 64) # sextet_char (n mod 64) # base64url_encode rest)
      = Some (char_of (n div 65536) # char_of (n div 256 mod 256) # char_of (n mod 256) # rest)"
    by (simp only: base64url_decode.simps sextet_value_char[OF s1]
          sextet_value_char[OF sextet_bounds(1)] sextet_value_char[OF sextet_bounds(2)]
          sextet_value_char[OF sextet_bounds(3)] 1 sextets_recon Let_def prod.case option.case)
  show ?case unfolding enc dec by (simp add: bytes)
next
  case (2 a b)
  define n :: nat where "n = of_char a * 1024 + of_char b * 4"
  have bounds: "(of_char a :: nat) < 256" "(of_char b :: nat) < 256" by simp_all
  have "n < 262144" using bounds unfolding n_def by linarith
  then have s1: "n div 4096 < 64" by simp
  have rc: "(n div 4096 * 64 + n div 64 mod 64) * 64 + n mod 64 = n"
  proof -
    have a: "n div 4096 = n div 64 div 64" by (simp add: div_mult2_eq[symmetric])
    show ?thesis unfolding a by (simp only: div_mult_mod_eq)
  qed
  have bytes: "n div 1024 = of_char a" "n div 4 mod 256 = of_char b"
    unfolding n_def using bytes2[OF bounds] by blast+
  have enc: "base64url_encode [a, b] =
      [sextet_char (n div 4096), sextet_char (n div 64 mod 64), sextet_char (n mod 64)]"
    by (simp add: n_def Let_def)
  have dec: "base64url_decode [sextet_char (n div 4096), sextet_char (n div 64 mod 64), sextet_char (n mod 64)]
      = Some [char_of (n div 1024), char_of (n div 4 mod 256)]"
    by (simp only: base64url_decode.simps sextet_value_char[OF s1]
          sextet_value_char[OF sextet_bounds(2)] sextet_value_char[OF sextet_bounds(3)]
          rc Let_def prod.case option.case)
  show ?case unfolding enc dec by (simp add: bytes)
next
  case (3 a)
  define n :: nat where "n = of_char a * 16"
  have bounds: "(of_char a :: nat) < 256" by simp
  have "n < 4096" using bounds unfolding n_def by linarith
  then have s1: "n div 64 < 64" by simp
  have rc: "n div 64 * 64 + n mod 64 = n" by (simp only: div_mult_mod_eq)
  have byte: "n div 16 = of_char a" unfolding n_def by simp
  have enc: "base64url_encode [a] = [sextet_char (n div 64), sextet_char (n mod 64)]"
    by (simp add: n_def Let_def)
  have dec: "base64url_decode [sextet_char (n div 64), sextet_char (n mod 64)]
      = Some [char_of (n div 16)]"
    by (simp only: base64url_decode.simps sextet_value_char[OF s1]
          sextet_value_char[OF sextet_bounds(3)] rc Let_def prod.case option.case)
  show ?case unfolding enc dec by (simp add: byte)
next
  case 4
  show ?case by simp
qed

lemma split_dots_no_dot:
  assumes "CHR ''.'' \<notin> set a"
  shows "split_dots a = [a]"
  using assms by (induction a) auto

lemma split_dots_append:
  assumes "CHR ''.'' \<notin> set a"
  shows "split_dots (a @ CHR ''.'' # rest) = a # split_dots rest"
  using assms by (induction a) auto

lemma hex_value_char:
  assumes "m < 16"
  shows "hex_value (hex_char m) = Some m"
proof -
  have d: "distinct ''0123456789abcdef''" by simp
  have l: "length ''0123456789abcdef'' = 16" by simp
  show ?thesis
    unfolding hex_value_def hex_char_def
    using assms by (intro index_of_nth[OF d]) simp
qed

lemma hex_value_zero: "hex_value (CHR ''0'') = Some 0"
  using hex_value_char[of 0] by (simp add: hex_char_def)

lemma digit_value_char:
  assumes "d < 10"
  shows "digit_value (digit_char d) = Some d"
proof -
  from assms have "d = 0 \<or> d = 1 \<or> d = 2 \<or> d = 3 \<or> d = 4 \<or> d = 5 \<or> d = 6
      \<or> d = 7 \<or> d = 8 \<or> d = 9"
    by arith
  then show ?thesis
    by (elim disjE) (simp_all add: digit_char_def digit_value_def)
qed

lemma char_of_of_char_nat: "c = char_of (of_char c :: nat)"
  by simp

lemma parse_string_body_quote_char:
  "parse_string_body (quote_char c @ rest)
     = map_option (\<lambda>(s, r). (c # s, r)) (parse_string_body rest)"
proof -
  define n :: nat where "n = of_char c"
  have c: "c = char_of n" by (simp add: n_def)
  have n256: "n < 256" by (simp add: n_def)
  consider (b) "n = 8" | (t) "n = 9" | (nl) "n = 10" | (f) "n = 12" | (r) "n = 13"
    | (q) "n = 34" | (bs) "n = 92"
    | (ctl) "n < 32" "n \<noteq> 8" "n \<noteq> 9" "n \<noteq> 10" "n \<noteq> 12" "n \<noteq> 13"
    | (plain) "32 \<le> n" "n \<noteq> 34" "n \<noteq> 92"
    by linarith
  then show ?thesis
  proof cases
    case b
    then show ?thesis by (simp add: c quote_char_def unescape_def)
  next
    case t
    then show ?thesis by (simp add: c quote_char_def unescape_def)
  next
    case nl
    then show ?thesis by (simp add: c quote_char_def unescape_def)
  next
    case f
    then show ?thesis by (simp add: c quote_char_def unescape_def)
  next
    case r
    then show ?thesis by (simp add: c quote_char_def unescape_def)
  next
    case q
    then have "c = CHR 0x22" by (intro of_char_eqI[where 'a = nat]) (simp add: n_def)
    then show ?thesis by (simp add: quote_char_def unescape_def)
  next
    case bs
    then have "c = CHR 0x5C" by (intro of_char_eqI[where 'a = nat]) (simp add: n_def)
    then show ?thesis by (simp add: quote_char_def unescape_def)
  next
    case ctl
    have q: "quote_char c =
        [CHR 0x5C, CHR ''u'', CHR ''0'', CHR ''0'', hex_char (n div 16), hex_char (n mod 16)]"
      using ctl by (simp add: quote_char_def n_def[symmetric] Let_def)
    have h1: "hex_value (hex_char (n div 16)) = Some (n div 16)"
      using ctl(1) by (intro hex_value_char) simp
    have h2: "hex_value (hex_char (n mod 16)) = Some (n mod 16)"
      by (intro hex_value_char) simp
    have v: "((0 * 16 + 0) * 16 + n div 16) * 16 + n mod 16 = n" by simp
    show ?thesis
      unfolding q
      by (simp add: hex_value_zero h1 h2 n256 c)
  next
    case plain
    have q: "quote_char c = [c]"
      using plain by (simp add: quote_char_def n_def[symmetric] Let_def)
    have "c \<noteq> CHR 0x22" using plain(2) by (auto simp: n_def)
    moreover have "c \<noteq> CHR 0x5C" using plain(3) by (auto simp: n_def)
    ultimately show ?thesis unfolding q by simp
  qed
qed

lemma parse_string_body_quoted:
  "parse_string_body (concat (map quote_char s) @ CHR 0x22 # rest) = Some (s, rest)"
  by (induction s) (simp_all add: parse_string_body_quote_char)

lemma show_nat_digits: "show_nat n \<noteq> [] \<and> (\<forall>c \<in> set (show_nat n). is_digit c)"
proof (induction n rule: show_nat.induct)
  case (1 n)
  show ?case
  proof (cases "n < 10")
    case True
    then show ?thesis
      by (subst (1 2) show_nat.simps) (simp add: is_digit_def digit_value_char)
  next
    case False
    have "n mod 10 < 10" by simp
    then have "is_digit (digit_char (n mod 10))"
      by (simp add: is_digit_def digit_value_char)
    then show ?thesis
      using 1 False by (subst (1 2) show_nat.simps) simp
  qed
qed

lemma digits_value_append:
  "digits_value acc (xs @ ys)
     = (case digits_value acc xs of None \<Rightarrow> None | Some a \<Rightarrow> digits_value a ys)"
  by (induction xs arbitrary: acc) (auto split: option.splits)

lemma digits_value_show_nat: "digits_value 0 (show_nat n) = Some n"
proof (induction n rule: show_nat.induct)
  case (1 n)
  show ?case
  proof (cases "n < 10")
    case True
    then show ?thesis
      by (subst show_nat.simps) (simp add: digit_value_char)
  next
    case False
    have d: "digit_value (digit_char (n mod 10)) = Some (n mod 10)"
      by (intro digit_value_char) simp
    show ?thesis
      using 1 False by (subst show_nat.simps) (simp add: digits_value_append d)
  qed
qed

lemma parse_number_show_nat:
  assumes "rest = [] \<or> \<not> is_digit (hd rest)"
  shows "parse_number (show_nat n @ rest) = Some (n, rest)"
proof -
  have all: "\<And>c. c \<in> set (show_nat n) \<Longrightarrow> is_digit c" and ne: "show_nat n \<noteq> []"
    using show_nat_digits[of n] by auto
  have stop: "takeWhile is_digit rest = []" "dropWhile is_digit rest = rest"
    using assms by (cases rest; simp)+
  have tw: "takeWhile is_digit (show_nat n @ rest) = show_nat n"
    using all stop by (simp add: takeWhile_append2)
  have dw: "dropWhile is_digit (show_nat n @ rest) = rest"
    using all stop by (simp add: dropWhile_append2)
  show ?thesis
    by (simp add: parse_number_def tw dw ne digits_value_show_nat Let_def)
qed

lemma quote_not_digit: "\<not> is_digit (CHR 0x22)"
  by (simp add: is_digit_def digit_value_def)

lemma parse_value_stringify:
  assumes "rest = [] \<or> \<not> is_digit (hd rest)"
  shows "parse_value (stringify_value v @ rest) = Some (v, rest)"
proof (cases v)
  case (JString s)
  then show ?thesis
    by (simp add: parse_value_def JSON_quote_def parse_string_body_quoted)
next
  case (JNumber n)
  obtain c cs where sn: "show_nat n = c # cs"
    using show_nat_digits[of n] by (cases "show_nat n") auto
  then have "is_digit c" using show_nat_digits[of n] by auto
  then have c: "c \<noteq> CHR 0x22" using quote_not_digit by auto
  have "parse_number (c # cs @ rest) = Some (n, rest)"
    using parse_number_show_nat[OF assms, of n] sn by simp
  then show ?thesis
    using JNumber sn c by (simp add: parse_value_def)
qed

lemma parse_member_stringify:
  assumes "rest = [] \<or> \<not> is_digit (hd rest)"
  shows "parse_member (stringify_member m @ rest) = Some (m, rest)"
  using parse_value_stringify[OF assms, of "snd m"]
  by (simp add: parse_member_def stringify_member_def JSON_quote_def parse_string_body_quoted)

lemma stringify_member_nonempty: "stringify_member m \<noteq> []"
  by (simp add: stringify_member_def JSON_quote_def)

lemma brace_not_digit: "\<not> is_digit (CHR ''}'')" "\<not> is_digit (CHR '','')"
  by (simp_all add: is_digit_def digit_value_def)

lemma parse_members_stringify:
  assumes "ms \<noteq> []" and "length ms \<le> fuel"
  shows "parse_members fuel (join_commas (map stringify_member ms) @ ''}'') = Some ms"
  using assms
proof (induction ms arbitrary: fuel)
  case Nil
  then show ?case by simp
next
  case (Cons m ms)
  obtain fuel' where fuel: "fuel = Suc fuel'" using Cons.prems(2) by (cases fuel) auto
  show ?case
  proof (cases ms)
    case Nil
    have "parse_member (stringify_member m @ ''}'') = Some (m, ''}'')"
      by (rule parse_member_stringify) (simp add: brace_not_digit)
    then show ?thesis using Nil fuel by simp
  next
    case (Cons m' ms')
    let ?rest = "join_commas (map stringify_member ms) @ ''}''"
    have pm: "parse_member (stringify_member m @ CHR '','' # ?rest) = Some (m, CHR '','' # ?rest)"
      by (rule parse_member_stringify) (simp add: brace_not_digit)
    have ih: "parse_members fuel' ?rest = Some ms"
      using Cons.IH[of fuel'] Cons Cons.prems(2) fuel by simp
    have shape: "join_commas (map stringify_member (m # ms)) @ ''}''
        = stringify_member m @ CHR '','' # ?rest"
      using Cons by simp
    show ?thesis
      unfolding shape fuel by (simp add: pm ih)
  qed
qed

lemma join_commas_length:
  "length ms \<le> length (join_commas (map stringify_member ms))"
proof (induction ms)
  case Nil
  show ?case by simp
next
  case (Cons m ms)
  have "Suc 0 \<le> length (stringify_member m)"
    using stringify_member_nonempty[of m] by (cases "stringify_member m") auto
  then show ?case using Cons by (cases ms) auto
qed

lemma JSON_roundtrip: "JSON_parse_object (JSON_stringify obj) = Some obj"
proof (cases obj)
  case Nil
  then show ?thesis by (simp add: JSON_parse_object_def JSON_stringify_def)
next
  case (Cons m ms)
  let ?body = "join_commas (map stringify_member obj)"
  have ne: "?body \<noteq> []"
    using Cons stringify_member_nonempty[of m] by (cases ms) auto
  then have neq: "''{'' @ ?body @ ''}'' \<noteq> ''{}''"
    by (cases ?body) auto
  have "length obj \<le> length (?body @ ''}'')"
    using join_commas_length[of obj] by simp
  then have "parse_members (length (?body @ ''}'')) (?body @ ''}'') = Some obj"
    using Cons by (intro parse_members_stringify) auto
  then show ?thesis
    using neq by (simp add: JSON_parse_object_def JSON_stringify_def)
qed

lemma decode_segment_encodeData: "decode_segment (encodeData obj) = Some obj"
  by (simp add: decode_segment_def encodeData_def base64url_roundtrip JSON_roundtrip)

text \<open>
  Claim C6. When the signing succeeds, the assertion is three segments joined by dots,
  \<open>header.body.signature\<close>, each written in the URL-safe base64 alphabet without
  padding. Decoding the header and the body segment gives back the objects that were
  encoded: the body has the issuer \<open>enablebanking.com\<close>, the audience
  \<open>api.enablebanking.com\<close>, the issued-at timestamp and an expiry equal to the
  timestamp plus the TTL of 20 hours (72000 seconds), which is below the provider's
  maximum of 24 hours (86400 seconds).
\<close>

theorem generateJWT_roundtrip:
  assumes sign: "rsa_sign keyContent
       (getJWTHeader applicationId @ ''.'' @ getJWTBody now_ms (expiresIn * 60 * 60))
     = Inr signature"
  shows "\<exists>header body sg.
      generateJWT rsa_sign applicationId keyContent now_ms
        = Inr (header @ ''.'' @ body @ ''.'' @ sg)
      \<and> split_dots (header @ ''.'' @ body @ ''.'' @ sg) = [header, body, sg]
      \<and> set (header @ body @ sg) \<subseteq> set base64url_alphabet
      \<and> CHR ''='' \<notin> set base64url_alphabet
      \<and> CHR ''+'' \<notin> set base64url_alphabet
      \<and> CHR ''/'' \<notin> set base64url_alphabet
      \<and> decode_segment header
          = Some [(''typ'', JString ''JWT''), (''alg'', JString ''RS256''),
                  (''kid'', JString applicationId)]
      \<and> decode_segment body
          = Some [(''iss'', JString ''enablebanking.com''),
                  (''aud'', JString ''api.enablebanking.com''),
                  (''iat'', JNumber (now_ms div 1000)),
                  (''exp'', JNumber (now_ms div 1000 + 72000))]
      \<and> base64url_decode sg = Some signature
      \<and> expiresIn * 60 * 60 = 72000
      \<and> (72000 :: nat) < 86400"
proof -
  let ?h = "getJWTHeader applicationId"
  let ?b = "getJWTBody now_ms (expiresIn * 60 * 60)"
  let ?s = "base64url_encode signature"
  have ttl: "expiresIn * 60 * 60 = 72000" by (simp add: expiresIn_def)
  have gen: "generateJWT rsa_sign applicationId keyContent now_ms
      = Inr (?h @ ''.'' @ ?b @ ''.'' @ ?s)"
    using sign by (simp add: generateJWT_def signWithKey_def Let_def)
  have inh: "set ?h \<subseteq> set base64url_alphabet"
    and inb: "set ?b \<subseteq> set base64url_alphabet"
    and ins: "set ?s \<subseteq> set base64url_alphabet"
    by (simp_all add: getJWTHeader_def getJWTBody_def encodeData_def Let_def
        base64url_encode_alphabet)
  have nodot: "CHR ''.'' \<notin> set ?h" "CHR ''.'' \<notin> set ?b" "CHR ''.'' \<notin> set ?s"
    using inh inb ins alphabet_url_safe(1) by blast+
  have split: "split_dots (?h @ ''.'' @ ?b @ ''.'' @ ?s) = [?h, ?b, ?s]"
    using split_dots_append[OF nodot(1), of "?b @ ''.'' @ ?s"]
      split_dots_append[OF nodot(2), of ?s] split_dots_no_dot[OF nodot(3)]
    by simp
  have dh: "decode_segment ?h
          = Some [(''typ'', JString ''JWT''), (''alg'', JString ''RS256''),
                  (''kid'', JString applicationId)]"
    by (simp add: getJWTHeader_def decode_segment_encodeData)
  have db: "decode_segment ?b
          = Some [(''iss'', JString ''enablebanking.com''),
                  (''aud'', JString ''api.enablebanking.com''),
                  (''iat'', JNumber (now_ms div 1000)),
                  (''exp'', JNumber (now_ms div 1000 + 72000))]"
    by (simp add: getJWTBody_def ttl decode_segment_encodeData Let_def)
  have ds: "base64url_decode ?s = Some signature"
    by (rule base64url_roundtrip)
  have all: "set (?h @ ?b @ ?s) \<subseteq> set base64url_alphabet"
    using inh inb ins by simp
  show ?thesis
    by (rule exI[of _ ?h], rule exI[of _ ?b], rule exI[of _ ?s])
       (intro conjI gen split all alphabet_url_safe dh db ds ttl, simp)
qed

lemma ex_header: "getJWTHeader ''app-1'' = ''eyJ0eXAiOiJKV1QiLCJhbGciOiJSUzI1NiIsImtpZCI6ImFwcC0xIn0''"
  by (simp add: getJWTHeader_def encodeData_def JSON_stringify_def stringify_member_def
      JSON_quote_def quote_char_def sextet_char_def base64url_alphabet_def Let_def)

lemma ex_body: "getJWTBody 1793700000999 72000 =
  ''eyJpc3MiOiJlbmFibGViYW5raW5nLmNvbSIsImF1ZCI6ImFwaS5lbmFibGViYW5raW5nLmNvbSIsImlhdCI6MTc5MzcwMDAwMCwiZXhwIjoxNzkzNzcyMDAwfQ''"
  by (simp add: getJWTBody_def encodeData_def JSON_stringify_def stringify_member_def
      JSON_quote_def quote_char_def sextet_char_def base64url_alphabet_def Let_def
      show_nat.simps digit_char_def)

theorem generateJWT_roundtrip_witness:
  "example_sign ''key'' (getJWTHeader ''app-1'' @ ''.'' @ getJWTBody 1793700000999 (expiresIn * 60 * 60))
     = Inr ''sig''
   \<and> generateJWT example_sign ''app-1'' ''key'' 1793700000999
     = Inr ''eyJ0eXAiOiJKV1QiLCJhbGciOiJSUzI1NiIsImtpZCI6ImFwcC0xIn0.eyJpc3MiOiJlbmFibGViYW5raW5nLmNvbSIsImF1ZCI6ImFwaS5lbmFibGViYW5raW5nLmNvbSIsImlhdCI6MTc5MzcwMDAwMCwiZXhwIjoxNzkzNzcyMDAwfQ.c2ln''
   \<and> decode_segment (getJWTBody 1793700000999 (expiresIn * 60 * 60))
     = Some [(''iss'', JString ''enablebanking.com''),
             (''aud'', JString ''api.enablebanking.com''),
             (''iat'', JNumber 1793700000), (''exp'', JNumber 1793772000)]"
proof -
  have sign: "example_sign ''key''
       (getJWTHeader ''app-1'' @ ''.'' @ getJWTBody 1793700000999 (expiresIn * 60 * 60))
     = Inr ''sig''"
    by (simp add: example_sign_def)
  have ttl: "expiresIn * 60 * 60 = 72000" by (simp add: expiresIn_def)
  from generateJWT_roundtrip[where rsa_sign = example_sign and keyContent = "''key''"
      and applicationId = "''app-1''" and now_ms = 1793700000999 and signature = "''sig''",
      OF sign]
  obtain header body sg where
    gen: "generateJWT example_sign ''app-1'' ''key'' 1793700000999
            = Inr (header @ ''.'' @ body @ ''.'' @ sg)"
    and sp: "split_dots (header @ ''.'' @ body @ ''.'' @ sg) = [header, body, sg]"
    and db: "decode_segment body
          = Some [(''iss'', JString ''enablebanking.com''),
                  (''aud'', JString ''api.enablebanking.com''),
                  (''iat'', JNumber (1793700000999 div 1000)),
                  (''exp'', JNumber (1793700000999 div 1000 + 72000))]"
    by blast
  have val: "generateJWT example_sign ''app-1'' ''key'' 1793700000999
      = Inr (getJWTHeader ''app-1'' @ ''.'' @ getJWTBody 1793700000999 72000 @ ''.'' @ ''c2ln'')"
    by (simp add: generateJWT_def signWithKey_def example_sign_def ttl
        sextet_char_def base64url_alphabet_def Let_def)
  have "split_dots (getJWTHeader ''app-1'' @ ''.'' @ getJWTBody 1793700000999 72000 @ ''.'' @ ''c2ln'')
      = [header, body, sg]"
    using gen sp val by simp
  then have "body = getJWTBody 1793700000999 72000"
    by (simp add: ex_header ex_body)
  then have "decode_segment (getJWTBody 1793700000999 72000)
     = Some [(''iss'', JString ''enablebanking.com''),
             (''aud'', JString ''api.enablebanking.com''),
             (''iat'', JNumber 1793700000), (''exp'', JNumber 1793772000)]"
    using db by simp
  then show ?thesis
    using sign val by (simp add: ttl ex_header ex_body)
qed


section \<open>The calendar\<close>

lemma century_terms_mono:
  fixes a b :: int
  assumes "a \<le> b" "0 \<le> a" "b \<le> 146096"
  shows "a div 36524 - a div 146096 \<le> b div 36524 - b div 146096"
proof (cases "b = 146096")
  case True
  show ?thesis
  proof (cases "a = 146096")
    case True
    then show ?thesis using \<open>b = 146096\<close> by simp
  next
    case False
    then have a: "a < 146096" using assms True by simp
    then have "a div 146096 = 0" using assms by simp
    moreover have "a div 36524 \<le> 3" using a by simp
    ultimately show ?thesis using True by simp
  qed
next
  case False
  then have b: "b < 146096" using assms by simp
  then have "b div 146096 = 0" "a div 146096 = 0" using assms by simp_all
  moreover have "a div 36524 \<le> b div 36524" using assms(1) by (rule zdiv_mono1) simp
  ultimately show ?thesis by simp
qed


lemma year_estimate_table_list:
  "list_all (\<lambda>y. 365 * y \<le> year_estimate (era_days_before y)
                 \<and> year_estimate (era_days_before (y + 1) - 1) < 365 * (y + 1)) [0..399]"
  by code_simp

lemma year_estimate_table:
  assumes "0 \<le> y" "y \<le> 399"
  shows "365 * y \<le> year_estimate (era_days_before y)"
    and "year_estimate (era_days_before (y + 1) - 1) < 365 * (y + 1)"
proof -
  have "y \<in> set [0..399]" using assms by simp
  then have "365 * y \<le> year_estimate (era_days_before y)
                 \<and> year_estimate (era_days_before (y + 1) - 1) < 365 * (y + 1)"
    using year_estimate_table_list unfolding list_all_iff by blast
  then show "365 * y \<le> year_estimate (era_days_before y)"
    and "year_estimate (era_days_before (y + 1) - 1) < 365 * (y + 1)" by simp_all
qed

lemma leap_term_mono: "a \<le> b \<Longrightarrow> a - a div 1460 \<le> b - b div (1460::int)"
  by arith

lemma year_estimate_mono:
  assumes "a \<le> b" "0 \<le> a" "b \<le> 146096"
  shows "year_estimate a \<le> year_estimate b"
  using leap_term_mono[OF assms(1)] century_terms_mono[OF assms] by (simp add: year_estimate_def)

lemma century_term_mono: "a \<le> b \<Longrightarrow> a - a div 100 \<le> b - b div (100::int)"
  by arith

lemma era_days_before_mono:
  assumes "a \<le> b"
  shows "era_days_before a \<le> era_days_before b"
proof -
  have "a div 4 \<le> b div 4" using assms by (rule zdiv_mono1) simp
  then show ?thesis
    using century_term_mono[OF assms] assms unfolding era_days_before_def by linarith
qed

lemma yoe_bounds:
  assumes "0 \<le> doe" "doe \<le> 146096"
  defines "yoe \<equiv> year_estimate doe div 365"
  shows "0 \<le> yoe" "yoe \<le> 399" "era_days_before yoe \<le> doe"
    "yoe < 399 \<Longrightarrow> doe < era_days_before (yoe + 1)"
proof -
  have lo: "year_estimate 0 \<le> year_estimate doe"
    using assms by (intro year_estimate_mono) simp_all
  have hi: "year_estimate doe \<le> year_estimate 146096"
    using assms by (intro year_estimate_mono) simp_all
  have f0: "year_estimate 0 = 0" and ftop: "year_estimate 146096 = 145999"
    by (simp_all add: year_estimate_def)
  show y0: "0 \<le> yoe" using lo f0 by (simp add: yoe_def pos_imp_zdiv_nonneg_iff)
  show y399: "yoe \<le> 399" using hi ftop unfolding yoe_def by arith
  have between: "365 * yoe \<le> year_estimate doe" "year_estimate doe < 365 * (yoe + 1)"
    unfolding yoe_def by arith+
  show "era_days_before yoe \<le> doe"
  proof (rule ccontr)
    assume "\<not> era_days_before yoe \<le> doe"
    then have lt: "doe \<le> era_days_before yoe - 1" by simp
    have "yoe \<noteq> 0" using lt assms(1) by (auto simp: era_days_before_def)
    then have y1: "0 \<le> yoe - 1" "yoe - 1 \<le> 399" using y0 y399 by simp_all
    have top: "era_days_before yoe - 1 \<le> 146096"
      using era_days_before_mono[of yoe 399] y399 by (simp add: era_days_before_def)
    have "year_estimate doe \<le> year_estimate (era_days_before yoe - 1)"
      using lt assms(1) top by (intro year_estimate_mono) simp_all
    also have "\<dots> < 365 * yoe"
      using year_estimate_table(2)[OF y1] by simp
    finally show False using between(1) by simp
  qed
  show "doe < era_days_before (yoe + 1)" if "yoe < 399"
  proof (rule ccontr)
    assume "\<not> doe < era_days_before (yoe + 1)"
    then have ge: "era_days_before (yoe + 1) \<le> doe" by simp
    have y1: "0 \<le> yoe + 1" "yoe + 1 \<le> 399" using y0 that by simp_all
    have nonneg: "0 \<le> era_days_before (yoe + 1)"
      using era_days_before_mono[of 0 "yoe + 1"] y1 by (simp add: era_days_before_def)
    have "365 * (yoe + 1) \<le> year_estimate (era_days_before (yoe + 1))"
      using year_estimate_table(1)[OF y1] by simp
    also have "\<dots> \<le> year_estimate doe"
      using ge nonneg assms(2) by (intro year_estimate_mono) simp_all
    finally show False using between(2) by simp
  qed
qed


lemma div_step:
  fixes n y :: int
  assumes "0 < n"
  shows "(y + 1) div n - y div n = (if (y + 1) mod n = 0 then 1 else 0)"
proof -
  define q where "q = (y + 1) div n"
  define r where "r = (y + 1) mod n"
  have eq: "y + 1 = n * q + r" by (simp add: q_def r_def)
  have r: "0 \<le> r" "r < n" using assms by (simp_all add: r_def)
  show ?thesis
  proof (cases "r = 0")
    case True
    have "y = n * (q - 1) + (n - 1)" using eq True by (simp add: algebra_simps)
    then have "y div n = q - 1"
      using assms int_div_pos_eq[of y n "q - 1" "n - 1"] by simp
    then show ?thesis using True by (simp add: q_def[symmetric] r_def[symmetric])
  next
    case False
    have "y = n * q + (r - 1)" using eq by simp
    then have "y div n = q"
      using r False int_div_pos_eq[of y n q "r - 1"] by simp
    then show ?thesis using False by (simp add: q_def[symmetric] r_def[symmetric])
  qed
qed

lemma era_days_before_step:
  "era_days_before (y + 1) - era_days_before y
     = 365 + (if (y + 1) mod 4 = 0 then 1 else 0) - (if (y + 1) mod 100 = 0 then 1 else 0)"
proof -
  have gen: "365 * (y + 1) + p - q - (365 * y + r - s) = 365 + (p - r) - (q - s)"
    for p q r s :: int
    by simp
  have "era_days_before (y + 1) - era_days_before y
      = 365 + ((y + 1) div 4 - y div 4) - ((y + 1) div 100 - y div 100)"
    unfolding era_days_before_def by (rule gen)
  then show ?thesis by (simp only: div_step[of 4 y] div_step[of 100 y])
qed

lemma month_day_bounds:
  fixes doy :: int
  assumes "0 \<le> doy" "doy \<le> 365"
  defines "mp \<equiv> (5 * doy + 2) div 153"
  defines "dd \<equiv> doy - (153 * mp + 2) div 5 + 1"
  shows "0 \<le> mp" "mp \<le> 11" "1 \<le> dd"
    "mp = 11 \<Longrightarrow> dd = doy - 336"
    "mp \<noteq> 11 \<Longrightarrow> dd \<le> (if mp = 1 \<or> mp = 3 \<or> mp = 6 \<or> mp = 8 then 30 else 31)"
proof -
  show m0: "0 \<le> mp" unfolding mp_def using assms(1) by (simp add: pos_imp_zdiv_nonneg_iff)
  show m11: "mp \<le> 11" unfolding mp_def using assms(2) by arith
  have bnd: "153 * mp \<le> 5 * doy + 2" "5 * doy + 2 < 153 * mp + 153"
    unfolding mp_def by arith+
  from m0 m11 have cases: "mp = 0 \<or> mp = 1 \<or> mp = 2 \<or> mp = 3 \<or> mp = 4 \<or> mp = 5 \<or> mp = 6
      \<or> mp = 7 \<or> mp = 8 \<or> mp = 9 \<or> mp = 10 \<or> mp = 11"
    by arith
  show "1 \<le> dd"
    using cases bnd unfolding dd_def by (elim disjE) simp_all
  show "dd = doy - 336" if "mp = 11"
    using that unfolding dd_def by simp
  show "dd \<le> (if mp = 1 \<or> mp = 3 \<or> mp = 6 \<or> mp = 8 then 30 else 31)" if "mp \<noteq> 11"
    using cases that bnd unfolding dd_def by (elim disjE) simp_all
qed


lemma civil_from_days_correct:
  assumes "civil_from_days z = (y, m, d)"
  shows "days_from_civil y m d = z \<and> 1 \<le> m \<and> m \<le> 12 \<and> 1 \<le> d \<and> d \<le> days_in_month y m"
proof -
  define z' where "z' = z + 719468"
  define era where "era = z' div 146097"
  define doe where "doe = z' - era * 146097"
  define yoe where "yoe = year_estimate doe div 365"
  define doy where "doy = doe - era_days_before yoe"
  define mp where "mp = (5 * doy + 2) div 153"
  define dd where "dd = doy - (153 * mp + 2) div 5 + 1"
  define mm where "mm = (if mp < 10 then mp + 3 else mp - 9)"
  have cfd: "civil_from_days z = (if mm \<le> 2 then yoe + era * 400 + 1 else yoe + era * 400, mm, dd)"
    unfolding civil_from_days_def Let_def mm_def dd_def mp_def doy_def yoe_def doe_def era_def
      z'_def year_estimate_def era_days_before_def
    by (rule refl)
  have y: "y = (if mm \<le> 2 then yoe + era * 400 + 1 else yoe + era * 400)"
    and m: "m = mm" and d: "d = dd"
    using assms cfd by auto
  have doe_mod: "doe = z' mod 146097"
    by (simp add: doe_def era_def minus_div_mult_eq_mod)
  have doe: "0 \<le> doe" "doe \<le> 146096"
    unfolding doe_mod by simp_all
  have yoe: "0 \<le> yoe" "yoe \<le> 399" "era_days_before yoe \<le> doe"
    and next_year: "yoe < 399 \<Longrightarrow> doe < era_days_before (yoe + 1)"
    using yoe_bounds[OF doe] unfolding yoe_def by blast+
  have doy0: "0 \<le> doy" using yoe(3) by (simp add: doy_def)
  have leap_len: "doy \<le> 364 + (if (yoe + 1) mod 4 = 0 \<and> ((yoe + 1) mod 100 \<noteq> 0 \<or> yoe = 399)
                               then 1 else 0)"
  proof (cases "yoe = 399")
    case True
    have "era_days_before 399 = 145731" by (simp add: era_days_before_def)
    then show ?thesis using True doe(2) by (simp add: doy_def)
  next
    case False
    then have "doe < era_days_before (yoe + 1)" using yoe(2) next_year by simp
    then have "doy < era_days_before (yoe + 1) - era_days_before yoe"
      by (simp add: doy_def)
    then show ?thesis
      using False unfolding era_days_before_step by (simp split: if_splits)
  qed
  then have doy365: "doy \<le> 365" by (simp split: if_splits)
  have mp: "0 \<le> mp" "mp \<le> 11" and dd1: "1 \<le> dd"
    and feb: "mp = 11 \<Longrightarrow> dd = doy - 336"
    and other: "mp \<noteq> 11 \<Longrightarrow> dd \<le> (if mp = 1 \<or> mp = 3 \<or> mp = 6 \<or> mp = 8 then 30 else 31)"
    using month_day_bounds[OF doy0 doy365] unfolding mp_def dd_def by blast+
  have mm: "1 \<le> mm" "mm \<le> 12" using mp by (simp_all add: mm_def)
  have mp_back: "(if mm > 2 then mm - 3 else mm + 9) = mp"
    using mp by (simp add: mm_def)
  have y_back: "(if mm \<le> 2 then y - 1 else y) = yoe + era * 400"
    by (simp add: y)
  have era_back: "(yoe + era * 400) div 400 = era"
    using yoe by simp
  have doy_back: "(153 * mp + 2) div 5 + dd - 1 = doy"
    by (simp add: dd_def)
  have doe_back: "yoe * 365 + yoe div 4 - yoe div 100 + doy = doe"
    by (simp add: doy_def era_days_before_def)
  have "days_from_civil y mm dd = era * 146097 + doe - 719468"
    unfolding days_from_civil_def Let_def mp_back y_back era_back doy_back
    by (simp add: doe_back)
  also have "\<dots> = z" by (simp add: doe_def z'_def)
  finally have inv: "days_from_civil y m d = z" by (simp add: m d)
  have valid: "dd \<le> days_in_month y mm"
  proof (cases "mp = 11")
    case True
    then have mm2: "mm = 2" by (simp add: mm_def)
    have yy: "y = yoe + era * 400 + 1" using mm2 by (simp add: y)
    have leap: "is_leap_year y \<longleftrightarrow>
        (yoe + 1) mod 4 = 0 \<and> ((yoe + 1) mod 100 \<noteq> 0 \<or> (yoe + 1) mod 400 = 0)"
    proof -
      have e4: "y = (yoe + 1) + (era * 100) * 4"
        and e100: "y = (yoe + 1) + (era * 4) * 100"
        and e400: "y = (yoe + 1) + era * 400"
        using yy by simp_all
      have "y mod 4 = (yoe + 1) mod 4"
        by (subst e4) (rule mod_mult_self1)
      moreover have "y mod 100 = (yoe + 1) mod 100"
        by (subst e100) (rule mod_mult_self1)
      moreover have "y mod 400 = (yoe + 1) mod 400"
        by (subst e400) (rule mod_mult_self1)
      ultimately have "y mod 4 = (yoe + 1) mod 4" "y mod 100 = (yoe + 1) mod 100"
        "y mod 400 = (yoe + 1) mod 400"
        by blast+
      then show ?thesis by (simp add: is_leap_year_def)
    qed
    have top: "(yoe + 1) mod 400 = 0 \<longleftrightarrow> yoe = 399"
    proof (cases "yoe = 399")
      case True
      then show ?thesis by simp
    next
      case False
      then have "(yoe + 1) mod 400 = yoe + 1"
        using yoe(1,2) by (intro mod_pos_pos_trivial) simp_all
      then show ?thesis using False yoe(1) by simp
    qed
    show ?thesis
      using feb[OF True] leap_len leap top mm2
      by (auto simp: days_in_month_def split: if_splits)
  next
    case False
    then show ?thesis
      using other[OF False] mp
      by (auto simp: days_in_month_def mm_def split: if_splits)
  qed
  show ?thesis using inv mm dd1 valid by (simp add: m d)
qed


section \<open>The transactions request\<close>

lemma zero_is_digit: "is_digit (CHR ''0'')" "digit_value (CHR ''0'') = Some 0"
  by (simp_all add: is_digit_def digit_value_def)

lemma hyphen_not_digit: "\<not> is_digit (CHR ''-'')"
  by (simp add: is_digit_def digit_value_def)

lemma show_nat_small: "n < 10 \<Longrightarrow> show_nat n = [digit_char n]"
  by (subst show_nat.simps) simp

lemma show_nat_length_two: "n < 100 \<Longrightarrow> length (show_nat n) \<le> 2"
proof -
  assume n: "n < 100"
  show ?thesis
  proof (cases "n < 10")
    case True
    then show ?thesis by (simp add: show_nat_small)
  next
    case False
    have "n div 10 < 10" using n by simp
    then show ?thesis
      using False by (subst show_nat.simps) (simp add: show_nat_small)
  qed
qed

lemma show_nat_leading:
  "0 < n \<Longrightarrow> hd (show_nat n) \<noteq> CHR ''0''"
proof (induction n rule: show_nat.induct)
  case (1 n)
  show ?case
  proof (cases "n < 10")
    case True
    have "digit_char n \<noteq> CHR ''0''"
    proof
      assume "digit_char n = CHR ''0''"
      then have "digit_value (digit_char n) = Some 0" by (simp add: zero_is_digit)
      then show False using True 1(2) by (simp add: digit_value_char)
    qed
    then show ?thesis using True by (simp add: show_nat_small)
  next
    case False
    then have "0 < n div 10" by simp
    with 1(1) False have "hd (show_nat (n div 10)) \<noteq> CHR ''0''" by simp
    moreover have "show_nat (n div 10) \<noteq> []" using show_nat_digits by blast
    ultimately show ?thesis
      using False by (subst show_nat.simps) simp
  qed
qed

lemma digits_value_zeros:
  "digits_value 0 (replicate k (CHR ''0'') @ xs) = digits_value 0 xs"
  by (induction k) (simp_all add: zero_is_digit)

lemma addLeadingZeros_padded:
  "addLeadingZeros number targetLength
     = (if number < 0 then ''-'' else []) @ zero_padded (nat \<bar>number\<bar>) targetLength"
  by (simp add: addLeadingZeros_def zero_padded_def Let_def)

lemma zero_padded_digits: "\<forall>c \<in> set (zero_padded n k). is_digit c"
  using show_nat_digits[of n] by (auto simp: zero_padded_def zero_is_digit)

lemma zero_padded_value: "digits_value 0 (zero_padded n k) = Some n"
  by (simp add: zero_padded_def digits_value_zeros digits_value_show_nat)

lemma zero_padded_length: "k \<le> length (zero_padded n k)"
  by (simp add: zero_padded_def)

lemma zero_padded_length_two: "n < 100 \<Longrightarrow> length (zero_padded n 2) = 2"
  using show_nat_length_two[of n] by (simp add: zero_padded_def)

lemma zero_padded_canonical:
  assumes "k < length (zero_padded n k)" and "0 < k"
  shows "hd (zero_padded n k) \<noteq> CHR ''0''"
proof -
  have long: "k < length (show_nat n)"
    using assms by (simp add: zero_padded_def split: if_splits)
  then have eq: "zero_padded n k = show_nat n" by (simp add: zero_padded_def)
  have "0 < n"
  proof (rule ccontr)
    assume "\<not> 0 < n"
    then have "show_nat n = [digit_char 0]" by (simp add: show_nat_small)
    then show False using long eq assms by simp
  qed
  then show ?thesis by (simp add: eq show_nat_leading)
qed

lemma zero_padded_nonempty: "zero_padded n k \<noteq> []"
  using show_nat_digits[of n] by (simp add: zero_padded_def)

lemma parse_iso_date_format:
  assumes m: "0 \<le> m" "m < 100" and d: "0 \<le> d" "d < 100"
  shows "parse_iso_date (addLeadingZeros y 4 @ ''-'' @ addLeadingZeros m 2 @ ''-''
            @ addLeadingZeros d 2) = Some (y, m, d)"
proof -
  define ys where "ys = zero_padded (nat \<bar>y\<bar>) 4"
  define ms where "ms = zero_padded (nat m) 2"
  define ds where "ds = zero_padded (nat d) 2"
  define rest where "rest = CHR ''-'' # ms @ CHR ''-'' # ds"
  have lm: "length ms = 2" and ld: "length ds = 2"
    using m d by (simp_all add: ms_def ds_def zero_padded_length_two)
  have ys_digits: "\<And>c. c \<in> set ys \<Longrightarrow> is_digit c"
    using zero_padded_digits by (simp add: ys_def)
  have ys_ne: "ys \<noteq> []" by (simp add: ys_def zero_padded_nonempty)
  have hd_ys: "hd ys \<noteq> CHR ''-''"
    using ys_digits[of "hd ys"] ys_ne hyphen_not_digit by auto
  have tw: "takeWhile is_digit (ys @ rest) = ys"
    using ys_digits by (simp add: rest_def hyphen_not_digit)
  have dw: "dropWhile is_digit (ys @ rest) = rest"
    using ys_digits by (simp add: rest_def hyphen_not_digit)
  have len: "\<not> length ys < 4" using zero_padded_length[of 4 "nat \<bar>y\<bar>"] by (simp add: ys_def)
  have canon: "\<not> (4 < length ys \<and> hd ys = CHR ''0'')"
    using zero_padded_canonical[of 4 "nat \<bar>y\<bar>"] by (auto simp: ys_def)
  have rest6: "length rest = 6" "rest ! 0 = CHR ''-''" "rest ! 3 = CHR ''-''"
    using lm ld by (simp_all add: rest_def nth_Cons' nth_append)
  have mid: "take 2 (drop (Suc 0) rest) = ms" and last: "drop 4 rest = ds"
    using lm ld by (simp_all add: rest_def)
  have vy: "digits_value 0 ys = Some (nat \<bar>y\<bar>)"
    and vm: "digits_value 0 ms = Some (nat m)"
    and vd: "digits_value 0 ds = Some (nat d)"
    by (simp_all add: ys_def ms_def ds_def zero_padded_value)
  have shape: "addLeadingZeros y 4 @ ''-'' @ addLeadingZeros m 2 @ ''-'' @ addLeadingZeros d 2
      = (if y < 0 then ''-'' else []) @ ys @ rest"
    using m d by (simp add: addLeadingZeros_padded ys_def ms_def ds_def rest_def)
  show ?thesis
  proof (cases "y < 0")
    case True
    then have "nat \<bar>y\<bar> \<noteq> 0" by simp
    then show ?thesis
      using True m d
      by (subst shape) (simp add: parse_iso_date_def tw dw len canon rest6 mid last vy vm vd)
  next
    case False
    then show ?thesis
      using m d hd_ys ys_ne
      by (subst shape) (simp add: parse_iso_date_def tw dw len canon rest6 mid last vy vm vd)
  qed
qed

text \<open>
  What \<open>formatISO\<close> writes for a date reads back as the year, month and day of that
  date.
\<close>

lemma formatISO_date_parse:
  "parse_iso_date (formatISO_date date) = Some (civil_from_days (local_day date))"
proof -
  obtain y m d where c: "civil_from_days (local_day date) = (y, m, d)"
    by (cases "civil_from_days (local_day date)") auto
  have "1 \<le> m" "m \<le> 12" "1 \<le> d" "d \<le> days_in_month y m"
    using civil_from_days_correct[OF c] by simp_all
  moreover have "days_in_month y m \<le> 31" by (simp add: days_in_month_def)
  ultimately have "0 \<le> m" "m < 100" "0 \<le> d" "d < 100" by simp_all
  then have "parse_iso_date (addLeadingZeros y 4 @ ''-'' @ addLeadingZeros m 2 @ ''-''
            @ addLeadingZeros d 2) = Some (y, m, d)"
    by (rule parse_iso_date_format)
  then show ?thesis by (simp add: formatISO_date_def c)
qed

text \<open>
  Claim C7, as the code has it. Every \<open>getTransactions\<close> call sends
  \<open>transaction_status = BOOK\<close> and returns the provider's answer to that request as
  it is. With \<open>latest\<close> set the request uses the strategy \<open>default\<close>, and its
  \<open>date_from\<close> is a date written \<open>yyyy-MM-dd\<close>, a day of the calendar, that lies
  exactly five days before today; otherwise the request uses the strategy \<open>longest\<close>
  and carries no \<open>date_from\<close>.
\<close>

theorem getTransactions_request_window:
  "getTransactions provider_get today accountId latest
      = provider_get (getTransactions_request today accountId latest)
   \<and> path (getTransactions_request today accountId latest)
      = ''/accounts/'' @ accountId @ ''/transactions''
   \<and> map_of (params (getTransactions_request today accountId latest)) ''transaction_status''
      = Some ''BOOK''
   \<and> (truthy latest \<longrightarrow>
        (\<exists>date_from y m d.
           params (getTransactions_request today accountId latest)
             = [(''strategy'', ''default''), (''transaction_status'', ''BOOK''),
                (''date_from'', date_from)]
           \<and> parse_iso_date date_from = Some (y, m, d)
           \<and> 1 \<le> m \<and> m \<le> 12 \<and> 1 \<le> d \<and> d \<le> days_in_month y m
           \<and> days_from_civil y m d = local_day today - 5))
   \<and> (\<not> truthy latest \<longrightarrow>
        params (getTransactions_request today accountId latest)
          = [(''strategy'', ''longest''), (''transaction_status'', ''BOOK'')]
        \<and> map_of (params (getTransactions_request today accountId latest)) ''date_from'' = None)"
proof -
  obtain y m d where c: "civil_from_days (local_day (subDays today 5)) = (y, m, d)"
    by (cases "civil_from_days (local_day (subDays today 5))") auto
  have day: "local_day (subDays today 5) = local_day today - 5"
    by (simp add: subDays_def)
  have written: "parse_iso_date (formatISO_date (subDays today 5)) = Some (y, m, d)"
    by (simp add: formatISO_date_parse c)
  have valid: "1 \<le> m" "m \<le> 12" "1 \<le> d" "d \<le> days_in_month y m"
    and five: "days_from_civil y m d = local_day today - 5"
    using civil_from_days_correct[OF c] day by simp_all
  have pass: "getTransactions provider_get today accountId latest
      = provider_get (getTransactions_request today accountId latest)"
    by (simp add: getTransactions_def)
  have fixed: "path (getTransactions_request today accountId latest)
      = ''/accounts/'' @ accountId @ ''/transactions''"
    "map_of (params (getTransactions_request today accountId latest)) ''transaction_status''
      = Some ''BOOK''"
    by (simp_all add: getTransactions_request_def)
  have window: "\<exists>date_from y m d.
           params (getTransactions_request today accountId latest)
             = [(''strategy'', ''default''), (''transaction_status'', ''BOOK''),
                (''date_from'', date_from)]
           \<and> parse_iso_date date_from = Some (y, m, d)
           \<and> 1 \<le> m \<and> m \<le> 12 \<and> 1 \<le> d \<and> d \<le> days_in_month y m
           \<and> days_from_civil y m d = local_day today - 5" if "truthy latest"
  proof -
    have "params (getTransactions_request today accountId latest)
             = [(''strategy'', ''default''), (''transaction_status'', ''BOOK''),
                (''date_from'', formatISO_date (subDays today 5))]"
      using that by (simp add: getTransactions_request_def)
    then show ?thesis using written valid five by blast
  qed
  have history: "params (getTransactions_request today accountId latest)
          = [(''strategy'', ''longest''), (''transaction_status'', ''BOOK'')]
        \<and> map_of (params (getTransactions_request today accountId latest)) ''date_from'' = None"
    if "\<not> truthy latest"
    using that by (simp add: getTransactions_request_def)
  show ?thesis using pass fixed window history by blast
qed

lemma ex_civil: "civil_from_days 20516 = (2026, 3, 4)"
  by code_simp

lemma ex_days: "days_from_civil 2026 3 4 = 20516" "days_from_civil 1970 1 1 = 0"
  "days_from_civil 2000 2 29 = 11016"
  by code_simp+

lemma ex_show: "show_nat 2026 = ''2026''" "show_nat 3 = ''3''" "show_nat 4 = ''4''"
  by (simp_all add: show_nat.simps digit_char_def)

lemma ex_date: "formatISO_date (subDays \<lparr>local_day = 20521, ms_of_day = 43200000\<rparr> 5) = ''2026-03-04''"
  by (simp add: formatISO_date_def subDays_def ex_civil addLeadingZeros_def ex_show)

lemma ex_parse: "parse_iso_date ''2026-03-04'' = Some (2026, 3, 4)"
  "parse_iso_date ''2026-3-4'' = None" "parse_iso_date ''02026-03-04'' = None"
  by (simp_all add: parse_iso_date_def is_digit_def digit_value_def)

theorem getTransactions_request_window_witness:
  "truthy (Some True)
   \<and> params (getTransactions_request \<lparr>local_day = 20521, ms_of_day = 43200000\<rparr> ''acc-1'' (Some True))
        = [(''strategy'', ''default''), (''transaction_status'', ''BOOK''),
           (''date_from'', ''2026-03-04'')]
   \<and> parse_iso_date ''2026-03-04'' = Some (2026, 3, 4)
   \<and> days_from_civil 2026 3 4 = local_day \<lparr>local_day = 20521, ms_of_day = 43200000\<rparr> - 5
   \<and> days_from_civil 1970 1 1 = 0
   \<and> days_from_civil 2000 2 29 = 11016
   \<and> parse_iso_date ''2026-3-4'' = None
   \<and> \<not> truthy None
   \<and> params (getTransactions_request \<lparr>local_day = 20521, ms_of_day = 43200000\<rparr> ''acc-1'' None)
        = [(''strategy'', ''longest''), (''transaction_status'', ''BOOK'')]"
  using getTransactions_request_window[of "\<lambda>rq. Never :: unit promise"
          "\<lparr>local_day = 20521, ms_of_day = 43200000\<rparr>" "''acc-1''" "Some True"]
        getTransactions_request_window[of "\<lambda>rq. Never :: unit promise"
          "\<lparr>local_day = 20521, ms_of_day = 43200000\<rparr>" "''acc-1''" None]
  by (simp add: getTransactions_request_def ex_date ex_parse ex_days)

text \<open>
  The claim C7 as stated says that no unbooked transaction is returned. The request
  asks for booked transactions, and the answer is not filtered: when the provider
  answers with a pending transaction, \<open>getTransactions\<close> returns it.
\<close>

theorem getTransactions_unfiltered_counterexample:
  "map_of (params (getTransactions_request \<lparr>local_day = 20760, ms_of_day = 43200000\<rparr> ''acc-1'' None))
       ''transaction_status'' = Some ''BOOK''
   \<and> getTransactions unfiltered_provider \<lparr>local_day = 20760, ms_of_day = 43200000\<rparr> ''acc-1'' None
       = Settles 120 (fulfilled \<lparr>transactions = [booked_transaction, pending_transaction]\<rparr>)
   \<and> pending_transaction \<in> set (transactions \<lparr>transactions = [booked_transaction, pending_transaction]\<rparr>)
   \<and> txn_status pending_transaction = ''PDNG''
   \<and> \<not> booked pending_transaction"
  by (simp add: getTransactions_def getTransactions_request_def unfiltered_provider_def
      booked_def pending_transaction_def)

end
